theory Spec2Isabelle
  imports Main "HOL-Library.Word" "HOL-Library.Sublist"
begin

section \<open>Data model of the immutable-memtable list (db/memtablelist.cc)\<close>

text \<open>
  Modelled from the spec: the class \<open>Status\<close> (leveldb/status.h) is not under src. A
  status is either ok or one of the error kinds of the engine with its message; a default
  constructed status is \<open>OK\<close>, and \<open>Status::IOError(msg)\<close> is \<open>IOError msg\<close>.
\<close>

datatype Status = OK | NotFound string | Corruption string | NotSupported string
  | InvalidArgument string | IOError string

fun ok :: "Status \<Rightarrow> bool" where
  "ok OK = True"
| "ok _ = False"

text \<open>
  The ways a call can stop without returning: a failed \<open>assert\<close>, or a member access
  through a null pointer. Every \<open>assert\<close> of the source is a branch of the model: when
  its condition is false the call ends with \<open>AssertionFailed\<close> and no state.
\<close>

datatype error = AssertionFailed | NullPointerDereference

text \<open>
  Modelled from the spec: the class \<open>MemTable\<close> (db/memtable.h) is not under src; the
  record has the fields of a memtable that the list reads and writes (flush state, file
  number, pending edit, reference count). A \<open>MemTable*\<close> is an address, never null; the
  memtables themselves live in a store that maps each address to its fields, so that the
  list, the batch \<open>mems\<close> and the local \<open>m\<close> can point to the same memtable. The
  version edit of a memtable is the list of its entries: \<open>Clear()\<close> empties it and
  \<open>NumEntries()\<close> is its length. \<open>file_number\<close> is a \<open>uint64_t\<close>, 0 while no file is
  assigned.
\<close>

type_synonym addr = nat

record 'e MemTable =
  flush_in_progress :: bool
  flush_completed :: bool
  file_number :: "64 word"
  edit :: "'e list"
  refs :: int

text \<open>
  The state the methods of \<open>MemTableList\<close> work on: the members of the class
  (\<open>memlist_\<close>, \<open>size_\<close>, \<open>num_flush_not_started_\<close>, \<open>commit_in_progress_\<close>,
  \<open>imm_flush_needed\<close>, which holds either \<open>nullptr\<close> or \<open>(void*)1\<close>), and the objects
  the methods reach through pointers and references: the memtables, the set
  \<open>pending_outputs\<close> and the version set. The head of \<open>memlist\<close> is the front of the
  \<open>std::list\<close> (the newest memtable), its last element the back (the oldest).
  The two counters are C++ \<open>int\<close>s; they count memtables held in memory and stay far from
  the limits of the type, so they are unbounded integers here.
\<close>

record ('e, 'v) MemTableList =
  memlist :: "addr list"
  list_size :: int
  num_flush_not_started :: int
  commit_in_progress :: bool
  imm_flush_needed :: bool
  heap :: "addr \<Rightarrow> 'e MemTable"
  pending_outputs :: "64 word set"
  vset :: 'v

text \<open>
  Modelled from the spec: \<open>MemTable::Ref\<close> and \<open>MemTable::Unref\<close> (db/memtable.h, not
  under src) take and drop one reference. What happens to a memtable whose last reference
  is dropped is outside the list.
\<close>

definition Ref :: "'e MemTable \<Rightarrow> 'e MemTable" where
  "Ref m = m\<lparr>refs := refs m + 1\<rparr>"

definition Unref :: "'e MemTable \<Rightarrow> 'e MemTable" where
  "Unref m = m\<lparr>refs := refs m - 1\<rparr>"

section \<open>Operations of the memtable list\<close>

text \<open>
  The methods run under the mutex of the database (\<open>mu->AssertHeld()\<close>), one at a time:
  a method takes the state and returns the new one. The calls of \<open>Log\<close> write to the
  info log only and are left out, and with them the flag \<open>first\<close> of the commit scan,
  which only chooses the text of a log line.
\<close>

text \<open>
  \<open>MemTableList::RefAll\<close> and \<open>MemTableList::UnrefAll\<close>: one \<open>Ref\<close> or \<open>Unref\<close> for
  every element of the list, from the front.
\<close>

definition RefAll :: "('e, 'v) MemTableList \<Rightarrow> ('e, 'v) MemTableList" where
  "RefAll s = s\<lparr>heap := fold (\<lambda>memtable h. h(memtable := Ref (h memtable))) (memlist s) (heap s)\<rparr>"

definition UnrefAll :: "('e, 'v) MemTableList \<Rightarrow> ('e, 'v) MemTableList" where
  "UnrefAll s =
     s\<lparr>heap := fold (\<lambda>memtable h. h(memtable := Unref (h memtable))) (memlist s) (heap s)\<rparr>"


text \<open>\<open>MemTableList::IsFlushPending\<close>.\<close>

definition IsFlushPending :: "int \<Rightarrow> ('e, 'v) MemTableList \<Rightarrow> error + bool" where
  "IsFlushPending min_write_buffer_number_to_merge s =
     (if num_flush_not_started s \<ge> min_write_buffer_number_to_merge then
        if \<not> imm_flush_needed s then Inl AssertionFailed else Inr True
      else Inr False)"

text \<open>\<open>MemTableList::Add\<close>: new memtables are inserted at the front of the list.\<close>

definition Add :: "addr \<Rightarrow> ('e, 'v) MemTableList \<Rightarrow> error + ('e, 'v) MemTableList" where
  "Add m s =
     (if \<not> (list_size s \<ge> num_flush_not_started s) then Inl AssertionFailed
      else
        let s1 = s\<lparr>list_size := list_size s + 1\<rparr>;
            s2 = s1\<lparr>memlist := m # memlist s1\<rparr>;
            s3 = s2\<lparr>num_flush_not_started := num_flush_not_started s2 + 1\<rparr>
        in Inr (if num_flush_not_started s3 = 1 then s3\<lparr>imm_flush_needed := True\<rparr> else s3))"

text \<open>
  \<open>MemTableList::PickMemtablesToFlush\<close>: the loop runs over the list from the back
  (\<open>rbegin\<close> to \<open>rend\<close>); \<open>pick_loop\<close> takes the members still to visit, the state and
  the vector \<open>ret\<close>.
\<close>

fun pick_loop ::
  "addr list \<Rightarrow> ('e, 'v) MemTableList \<Rightarrow> addr list \<Rightarrow> error + ('e, 'v) MemTableList \<times> addr list"
where
  "pick_loop [] s ret = Inr (s, ret)"
| "pick_loop (m # it) s ret =
     (if \<not> flush_in_progress (heap s m) then
        if \<not> (\<not> flush_completed (heap s m)) then Inl AssertionFailed
        else
          let s1 = s\<lparr>num_flush_not_started := num_flush_not_started s - 1\<rparr>;
              s2 = (if num_flush_not_started s1 = 0 then s1\<lparr>imm_flush_needed := False\<rparr> else s1);
              s3 = s2\<lparr>heap := (heap s2)(m := (heap s2 m)\<lparr>flush_in_progress := True\<rparr>)\<rparr>
          in pick_loop it s3 (ret @ [m])
      else pick_loop it s ret)"

definition PickMemtablesToFlush ::
  "('e, 'v) MemTableList \<Rightarrow> addr list \<Rightarrow> error + ('e, 'v) MemTableList \<times> addr list"
where
  "PickMemtablesToFlush s ret = pick_loop (rev (memlist s)) s ret"

text \<open>
  \<open>MemTableList::InstallMemtableFlushResults\<close>, first loop (flush failed): every memtable
  of the batch goes back to the queued state.
\<close>

fun reset_failed_flush ::
  "addr list \<Rightarrow> 64 word \<Rightarrow> ('e, 'v) MemTableList \<Rightarrow> error + ('e, 'v) MemTableList"
where
  "reset_failed_flush [] fn s = Inr s"
| "reset_failed_flush (m # ms) fn s =
     (if \<not> flush_in_progress (heap s m) then Inl AssertionFailed
      else if \<not> (file_number (heap s m) = 0) then Inl AssertionFailed
      else
        let s1 = s\<lparr>heap := (heap s)(m := (heap s m)\<lparr>flush_in_progress := False,
                     flush_completed := False, edit := []\<rparr>)\<rparr>;
            s2 = s1\<lparr>num_flush_not_started := num_flush_not_started s1 + 1\<rparr>;
            s3 = s2\<lparr>imm_flush_needed := True\<rparr>;
            s4 = s3\<lparr>pending_outputs := pending_outputs s3 - {fn}\<rparr>
        in reset_failed_flush ms fn s4)"

text \<open>
  Second loop (flush succeeded): every memtable of the batch is marked completed and gets
  the file number; \<open>first\<close> is the flag of the source.
\<close>

fun mark_flush_completed ::
  "addr list \<Rightarrow> bool \<Rightarrow> 64 word \<Rightarrow> ('e, 'v) MemTableList \<Rightarrow> error + ('e, 'v) MemTableList"
where
  "mark_flush_completed [] first fn s = Inr s"
| "mark_flush_completed (m # ms) first fn s =
     (if \<not> (first \<or> length (edit (heap s m)) = 0) then Inl AssertionFailed
      else
        let s1 = s\<lparr>heap := (heap s)(m := (heap s m)\<lparr>flush_completed := True,
                     file_number := fn\<rparr>)\<rparr>
        in mark_flush_completed ms False fn s1)"

text \<open>
  The body of the \<open>do ... while\<close> loop for one memtable \<open>m\<close>. \<open>commit_one\<close> is the
  branch under an ok status: \<open>m\<close> is removed from the list, which \<open>std::list::remove\<close>
  does for every element equal to \<open>m\<close>, and the status stays the ok status, which is
  \<open>OK\<close>. \<open>rollback_one\<close> is the other branch; it sets the status to the IO error.
\<close>

definition commit_one ::
  "addr \<Rightarrow> ('e, 'v) MemTableList \<Rightarrow> error + Status \<times> ('e, 'v) MemTableList"
where
  "commit_one m s =
     (let s1 = s\<lparr>memlist := removeAll m (memlist s)\<rparr> in
      if \<not> (file_number (heap s1 m) > 0) then Inl AssertionFailed
      else
        let s2 = s1\<lparr>pending_outputs := pending_outputs s1 - {file_number (heap s1 m)}\<rparr>;
            s3 = s2\<lparr>heap := (heap s2)(m := Unref (heap s2 m))\<rparr>;
            s4 = s3\<lparr>list_size := list_size s3 - 1\<rparr>
        in Inr (OK, s4))"

definition rollback_one ::
  "addr \<Rightarrow> ('e, 'v) MemTableList \<Rightarrow> Status \<times> ('e, 'v) MemTableList"
where
  "rollback_one m s =
     (let s1 = s\<lparr>heap := (heap s)(m := (heap s m)\<lparr>flush_completed := False,
                   flush_in_progress := False, edit := []\<rparr>)\<rparr>;
          s2 = s1\<lparr>num_flush_not_started := num_flush_not_started s1 + 1\<rparr>;
          s3 = s2\<lparr>pending_outputs := pending_outputs s2 - {file_number (heap s2 m)}\<rparr>;
          s4 = s3\<lparr>heap := (heap s3)(m := (heap s3 m)\<lparr>file_number := 0\<rparr>)\<rparr>;
          s5 = s4\<lparr>imm_flush_needed := True\<rparr>
      in (IOError ''Unable to commit flushed memtable'', s5))"

text \<open>
  The \<open>do ... while\<close> loop: the body runs, then the loop goes on with the new back of the
  list while the list is not empty and that member carries the file number of the call.
  Nothing bounds the number of rounds in the source, so the loop is a partial function:
  \<open>None\<close> is a loop that never ends.
\<close>

partial_function (option) commit_batch ::
  "addr \<Rightarrow> Status \<Rightarrow> 64 word \<Rightarrow> ('e, 'v) MemTableList
     \<Rightarrow> (error + Status \<times> ('e, 'v) MemTableList) option"
where
  "commit_batch m st fn s =
     (case (if ok st then commit_one m s else Inr (rollback_one m s)) of
        Inl e \<Rightarrow> Some (Inl e)
      | Inr (st1, s1) \<Rightarrow>
          if memlist s1 \<noteq> [] \<and> file_number (heap s1 (last (memlist s1))) = fn
          then commit_batch (last (memlist s1)) st1 fn s1
          else Some (Inr (st1, s1)))"

text \<open>
  The \<open>while\<close> loop of the commit scan. \<open>VersionSet::LogAndApply\<close> is not under src
  and is a parameter: it takes the version set and the edit and gives the status and the
  new version set, so any sequence of successes and failures can be given. What other
  threads do to the list while \<open>LogAndApply\<close> has released the mutex is not modelled.
\<close>

partial_function (option) commit_scan ::
  "('v \<Rightarrow> 'e list \<Rightarrow> Status \<times> 'v) \<Rightarrow> Status \<Rightarrow> 64 word \<Rightarrow> ('e, 'v) MemTableList
     \<Rightarrow> (error + Status \<times> ('e, 'v) MemTableList) option"
where
  "commit_scan LogAndApply st fn s =
     (if memlist s \<noteq> [] \<and> ok st then
        let m = last (memlist s) in
        if \<not> flush_completed (heap s m) then Some (Inr (st, s))
        else
          case LogAndApply (vset s) (edit (heap s m)) of (st1, v1) \<Rightarrow>
            (case commit_batch m st1 fn (s\<lparr>vset := v1\<rparr>) of
               None \<Rightarrow> None
             | Some (Inl e) \<Rightarrow> Some (Inl e)
             | Some (Inr (st2, s2)) \<Rightarrow> commit_scan LogAndApply st2 fn s2)
      else Some (Inr (st, s)))"

declare commit_batch.simps [code] commit_scan.simps [code]

text \<open>
  \<open>MemTableList::InstallMemtableFlushResults\<close>: \<open>None\<close> when the call never returns,
  \<open>Some (Inl e)\<close> when it stops at a failed assertion, \<open>Some (Inr (status, state))\<close>
  when it returns.
\<close>

definition InstallMemtableFlushResults ::
  "('v \<Rightarrow> 'e list \<Rightarrow> Status \<times> 'v) \<Rightarrow> addr list \<Rightarrow> Status \<Rightarrow> 64 word \<Rightarrow> ('e, 'v) MemTableList
     \<Rightarrow> (error + Status \<times> ('e, 'v) MemTableList) option"
where
  "InstallMemtableFlushResults LogAndApply mems flushStatus fn s =
     (if \<not> ok flushStatus then
        (case reset_failed_flush mems fn s of
           Inl e \<Rightarrow> Some (Inl e)
         | Inr s' \<Rightarrow> Some (Inr (flushStatus, s')))
      else
        (case mark_flush_completed mems True fn s of
           Inl e \<Rightarrow> Some (Inl e)
         | Inr s1 \<Rightarrow>
             if commit_in_progress s1 then Some (Inr (OK, s1))
             else
               (case commit_scan LogAndApply OK fn (s1\<lparr>commit_in_progress := True\<rparr>) of
                  None \<Rightarrow> None
                | Some (Inl e) \<Rightarrow> Some (Inl e)
                | Some (Inr (st, s2)) \<Rightarrow> Some (Inr (st, s2\<lparr>commit_in_progress := False\<rparr>)))))"

text \<open>\<open>MemTableList::GetMemTables\<close>.\<close>

definition GetMemTables :: "('e, 'v) MemTableList \<Rightarrow> addr list \<Rightarrow> addr list" where
  "GetMemTables s output = output @ memlist s"

section \<open>The merging iterator (table/merging_iterator.cc)\<close>

text \<open>
  Modelled from the spec: the child iterators (\<open>IteratorWrapper\<close> over an
  \<open>InternalIterator\<close>, table/iterator_wrapper.h) are not under src. A child is one of
  the sorted key sequences the spec speaks of, with a cursor: it is valid while the cursor
  stands on an entry, \<open>key\<close> is the entry under the cursor, \<open>Seek\<close> moves to the first
  entry that is not before the target in the order of the keys, \<open>Next\<close> moves one entry
  forward. The order of the comparator is the linear order of the key type. The source
  calls \<open>key\<close> and \<open>Next\<close> of a child only behind a test of \<open>Valid\<close>.
\<close>

record 'k IteratorWrapper =
  entries :: "'k list"
  cursor :: nat

definition Valid :: "'k IteratorWrapper \<Rightarrow> bool" where
  "Valid c = (cursor c < length (entries c))"

definition key_of :: "'k IteratorWrapper \<Rightarrow> 'k" where
  "key_of c = entries c ! cursor c"

definition Seek :: "'k::linorder \<Rightarrow> 'k IteratorWrapper \<Rightarrow> 'k IteratorWrapper" where
  "Seek target c = c\<lparr>cursor := length (takeWhile (\<lambda>k. k < target) (entries c))\<rparr>"

definition Next :: "'k IteratorWrapper \<Rightarrow> 'k IteratorWrapper" where
  "Next c = c\<lparr>cursor := cursor c + 1\<rparr>"

datatype Direction = kForward | kReverse

text \<open>
  Modelled from the spec: the members of \<open>MergingIterator\<close> are declared in the class
  body, which is not under src. \<open>children_\<close> is the vector of children; \<open>current_\<close>
  points to one of them or is null, so it is the index of a child or \<open>None\<close>;
  \<open>comparator_\<close> is a pointer to the comparator, here its \<open>Equal\<close> or \<open>None\<close> for a null
  pointer. The heaps hold pointers to children: a heap is the list of the indices pushed
  so far (the order inside the binary heap of util/heap.h is not modelled), and the
  max-heap is allocated on first need.
\<close>

record 'k MergingIterator =
  is_arena_mode :: bool
  prefix_seek_mode :: bool
  comparator :: "('k \<Rightarrow> 'k \<Rightarrow> bool) option"
  children :: "'k IteratorWrapper list"
  current :: "nat option"
  direction :: Direction
  minHeap :: "nat list"
  maxHeap :: "nat list option"

text \<open>
  Modelled from the spec: \<open>MergingIterator::key\<close> (class body, not under src) is the key of
  the current child and asserts that there is a valid one.
\<close>

definition key :: "'k MergingIterator \<Rightarrow> error + 'k" where
  "key it =
     (case current it of
        None \<Rightarrow> Inl AssertionFailed
      | Some c \<Rightarrow>
          if c < length (children it) \<and> Valid (children it ! c)
          then Inr (key_of (children it ! c)) else Inl AssertionFailed)"

text \<open>\<open>MergingIterator::ClearHeaps\<close>.\<close>

definition ClearHeaps :: "'k MergingIterator \<Rightarrow> 'k MergingIterator" where
  "ClearHeaps it =
     (let it1 = it\<lparr>minHeap := []\<rparr>
      in if maxHeap it1 \<noteq> None then it1\<lparr>maxHeap := Some []\<rparr> else it1)"

text \<open>\<open>MergingIterator::InitMaxHeap\<close>.\<close>

definition InitMaxHeap :: "'k MergingIterator \<Rightarrow> 'k MergingIterator" where
  "InitMaxHeap it = (if maxHeap it = None then it\<lparr>maxHeap := Some []\<rparr> else it)"

text \<open>
  \<open>MergingIterator::SwitchToForward\<close>. \<open>resync_child\<close> is the body of
  \<open>if (&child != current_)\<close> for the child at index \<open>i\<close>: seek to \<open>key()\<close>, and when the
  child is valid and \<open>comparator_->Equal(key(), child.key())\<close>, one \<open>Next\<close>. The current
  child is not touched by it, so \<open>key()\<close> is read once. \<open>switch_loop\<close> is the loop over
  \<open>children_\<close> by index, with the push of every valid child.
\<close>

definition resync_child :: "nat \<Rightarrow> 'k::linorder MergingIterator \<Rightarrow> error + 'k MergingIterator" where
  "resync_child i it =
     (case key it of
        Inl e \<Rightarrow> Inl e
      | Inr k \<Rightarrow>
          let it1 = it\<lparr>children := (children it)[i := Seek k (children it ! i)]\<rparr> in
          if Valid (children it1 ! i) then
            (case comparator it1 of
               None \<Rightarrow> Inl NullPointerDereference
             | Some equal \<Rightarrow>
                 if equal k (key_of (children it1 ! i))
                 then Inr (it1\<lparr>children := (children it1)[i := Next (children it1 ! i)]\<rparr>)
                 else Inr it1)
          else Inr it1)"

fun switch_loop :: "nat list \<Rightarrow> 'k::linorder MergingIterator \<Rightarrow> error + 'k MergingIterator" where
  "switch_loop [] it = Inr it"
| "switch_loop (i # rest) it =
     (case (if Some i \<noteq> current it then resync_child i it else Inr it) of
        Inl e \<Rightarrow> Inl e
      | Inr it1 \<Rightarrow>
          switch_loop rest
            (if Valid (children it1 ! i) then it1\<lparr>minHeap := minHeap it1 @ [i]\<rparr> else it1))"

definition SwitchToForward :: "'k::linorder MergingIterator \<Rightarrow> error + 'k MergingIterator" where
  "SwitchToForward it =
     (let it0 = ClearHeaps it in
      case switch_loop [0..<length (children it0)] it0 of
        Inl e \<Rightarrow> Inl e
      | Inr it1 \<Rightarrow> Inr (it1\<lparr>direction := kForward\<rparr>))"

text \<open>
  Modelled from the spec: the allocation arena (util/arena.h) is not under src.
  \<open>allocateAligned(size)\<close> hands out raw storage: the arena is the list of the sizes
  handed out, and the storage is named by its position. An \<open>Arena*\<close> may be null, so it
  is an option, and a call through a null arena is a null pointer dereference.
\<close>

type_synonym Arena = "nat list"

definition AllocateAligned :: "Arena option \<Rightarrow> nat \<Rightarrow> error + nat \<times> Arena" where
  "AllocateAligned a bytes =
     (case a of
        None \<Rightarrow> Inl NullPointerDereference
      | Some blocks \<Rightarrow> Inr (length blocks, blocks @ [bytes]))"

text \<open>
  Modelled from the spec: the constructor of \<open>MergingIterator\<close> and its \<open>AddIterator\<close>
  (class body, not under src). A new iterator holds the given children, is not positioned,
  goes forward, and has no max-heap yet; \<open>AddIterator\<close> adds one more child.
\<close>

definition new_MergingIterator ::
  "('k \<Rightarrow> 'k \<Rightarrow> bool) option \<Rightarrow> 'k IteratorWrapper list \<Rightarrow> bool \<Rightarrow> bool \<Rightarrow> 'k MergingIterator"
where
  "new_MergingIterator cmp list arena_mode prefix_mode =
     \<lparr>is_arena_mode = arena_mode, prefix_seek_mode = prefix_mode, comparator = cmp,
      children = list, current = None, direction = kForward,
      minHeap = [], maxHeap = None\<rparr>"

definition MergingIterator_AddIterator ::
  "'k IteratorWrapper \<Rightarrow> 'k MergingIterator \<Rightarrow> 'k MergingIterator" where
  "MergingIterator_AddIterator iter it = it\<lparr>children := children it @ [iter]\<rparr>"

text \<open>
  \<open>MergeIteratorBuilder\<close>: the arena pointer and the iterator under construction
  (\<open>merge_iter\<close>, null after \<open>Finish\<close>). \<open>sizeof(MergingIterator)\<close> is a parameter. The
  constructor allocates through the arena pointer it is given, whatever it is.
\<close>

record 'k MergeIteratorBuilder =
  arena :: "Arena option"
  merge_iter :: "'k MergingIterator option"

definition new_MergeIteratorBuilder ::
  "nat \<Rightarrow> ('k \<Rightarrow> 'k \<Rightarrow> bool) option \<Rightarrow> Arena option \<Rightarrow> bool \<Rightarrow> error + 'k MergeIteratorBuilder"
where
  "new_MergeIteratorBuilder sizeof_MergingIterator cmp a prefix_mode =
     (case AllocateAligned a sizeof_MergingIterator of
        Inl e \<Rightarrow> Inl e
      | Inr (mem, blocks) \<Rightarrow>
          Inr \<lparr>arena = Some blocks,
               merge_iter = Some (new_MergingIterator cmp [] True prefix_mode)\<rparr>)"

text \<open>\<open>MergeIteratorBuilder::AddIterator\<close> and \<open>MergeIteratorBuilder::Finish\<close>.\<close>

definition AddIterator ::
  "'k IteratorWrapper \<Rightarrow> 'k MergeIteratorBuilder \<Rightarrow> error + 'k MergeIteratorBuilder" where
  "AddIterator iter b =
     (case merge_iter b of
        None \<Rightarrow> Inl NullPointerDereference
      | Some it \<Rightarrow> Inr (b\<lparr>merge_iter := Some (MergingIterator_AddIterator iter it)\<rparr>))"

definition Finish ::
  "'k MergeIteratorBuilder \<Rightarrow> 'k MergingIterator option \<times> 'k MergeIteratorBuilder" where
  "Finish b = (let ret = merge_iter b in (ret, b\<lparr>merge_iter := None\<rparr>))"

text \<open>\<open>WrapToMergingIterator\<close>: a builder with null comparator and null arena.\<close>

definition WrapToMergingIterator ::
  "nat \<Rightarrow> 'k IteratorWrapper \<Rightarrow> error + 'k MergingIterator option" where
  "WrapToMergingIterator sizeof_MergingIterator iter =
     (case new_MergeIteratorBuilder sizeof_MergingIterator None None False of
        Inl e \<Rightarrow> Inl e
      | Inr builder \<Rightarrow>
          (case AddIterator iter builder of
             Inl e \<Rightarrow> Inl e
           | Inr builder1 \<Rightarrow> Inr (fst (Finish builder1))))"

text \<open>
  \<open>NewMergingIterator\<close>: the children are the first \<open>n\<close> of \<open>list\<close>; the result is the
  iterator and the arena after the call.
\<close>

definition NewMergingIterator ::
  "nat \<Rightarrow> ('k \<Rightarrow> 'k \<Rightarrow> bool) option \<Rightarrow> 'k IteratorWrapper list \<Rightarrow> int \<Rightarrow> Arena option \<Rightarrow> bool
     \<Rightarrow> error + 'k MergingIterator \<times> Arena option"
where
  "NewMergingIterator sizeof_MergingIterator cmp list n a prefix_mode =
     (if \<not> (n \<ge> 0) then Inl AssertionFailed
      else if a = None then
        Inr (new_MergingIterator cmp (take (nat n) list) False prefix_mode, a)
      else
        (case AllocateAligned a sizeof_MergingIterator of
           Inl e \<Rightarrow> Inl e
         | Inr (mem, blocks) \<Rightarrow>
             Inr (new_MergingIterator cmp (take (nat n) list) True prefix_mode, Some blocks)))"

section \<open>Notions used in the statements\<close>

text \<open>
  The memtable as a failed commit leaves it: queued again, without edit and without file
  number (the assignments of the \<open>else\<close> branch of the commit scan).
\<close>

definition rolled_back :: "'e MemTable \<Rightarrow> 'e MemTable" where
  "rolled_back mt = mt\<lparr>flush_completed := False, flush_in_progress := False, edit := [],
     file_number := 0\<rparr>"

text \<open>
  What a commit scan has done to a state \<open>s\<close> when it has committed the memtables
  \<open>removed\<close> (the oldest first at the end of the list) and rolled back the memtable
  \<open>failed\<close>, if any: \<open>s'\<close> is the state after it. The version set is left open.
\<close>

definition scan_effect ::
  "('e, 'v) MemTableList \<Rightarrow> addr list \<Rightarrow> addr option \<Rightarrow> ('e, 'v) MemTableList \<Rightarrow> bool"
where
  "scan_effect s removed failed s' \<longleftrightarrow>
     memlist s = memlist s' @ removed \<and>
     (\<forall>a. failed = Some a \<longrightarrow> memlist s' \<noteq> [] \<and> last (memlist s') = a) \<and>
     list_size s' = list_size s - int (length removed) \<and>
     commit_in_progress s' = commit_in_progress s \<and>
     num_flush_not_started s' = num_flush_not_started s + (if failed = None then 0 else 1) \<and>
     imm_flush_needed s' = (failed \<noteq> None \<or> imm_flush_needed s) \<and>
     pending_outputs s' =
       pending_outputs s - (\<lambda>a. file_number (heap s a)) ` (set removed \<union> set_option failed) \<and>
     (\<forall>a. heap s' a =
        (if a \<in> set removed then Unref (heap s a)
         else if failed = Some a then rolled_back (heap s a)
         else heap s a))"

text \<open>
  The outcome of a commit scan under the file number \<open>fn\<close>: its effect on the state,
  what it has committed (memtables with a file number, completed or carrying the file
  number of the call) and how it ended: with an ok status at an empty list or at an oldest
  member that is not completed, or with the IO error after a failed \<open>LogAndApply\<close> on the
  edit of the oldest remaining member.
\<close>

definition scan_outcome ::
  "('v \<Rightarrow> 'e list \<Rightarrow> Status \<times> 'v) \<Rightarrow> 64 word \<Rightarrow> ('e, 'v) MemTableList \<Rightarrow> addr list \<Rightarrow> addr option \<Rightarrow> Status
     \<Rightarrow> ('e, 'v) MemTableList \<Rightarrow> bool"
where
  "scan_outcome LogAndApply fn s removed failed st' s' \<longleftrightarrow>
     scan_effect s removed failed s' \<and>
     (\<forall>a\<in>set removed. file_number (heap s a) \<noteq> 0 \<and>
        (flush_completed (heap s a) \<or> file_number (heap s a) = fn)) \<and>
     (case failed of
        None \<Rightarrow> st' = OK \<and>
          (memlist s' \<noteq> [] \<longrightarrow> \<not> flush_completed (heap s (last (memlist s'))))
      | Some a \<Rightarrow> st' = IOError ''Unable to commit flushed memtable'' \<and>
          flush_completed (heap s a) \<and> fn \<noteq> 0 \<and>
          (\<exists>v. \<not> ok (fst (LogAndApply v (edit (heap s a)))) \<and>
             vset s' = snd (LogAndApply v (edit (heap s a)))))"

text \<open>
  The state after the loop that marks the batch of a successful flush.
\<close>

definition marked :: "addr list \<Rightarrow> 64 word \<Rightarrow> ('e, 'v) MemTableList \<Rightarrow> ('e, 'v) MemTableList" where
  "marked mems fn s =
     s\<lparr>heap := (\<lambda>a. if a \<in> set mems
                      then (heap s a)\<lparr>flush_completed := True, file_number := fn\<rparr>
                      else heap s a)\<rparr>"

text \<open>
  The invariant of the list between calls: no memtable is a member twice, \<open>size_\<close> is
  the number of members, \<open>num_flush_not_started_\<close> is the number of members that are not
  flush_in_progress, the guard is free, a completed member is in progress and a member
  with a file number is completed.
\<close>

definition list_inv :: "('e, 'v) MemTableList \<Rightarrow> bool" where
  "list_inv s \<longleftrightarrow>
     distinct (memlist s) \<and>
     list_size s = int (length (memlist s)) \<and>
     num_flush_not_started s =
       int (length (filter (\<lambda>a. \<not> flush_in_progress (heap s a)) (memlist s))) \<and>
     \<not> commit_in_progress s \<and>
     (\<forall>a\<in>set (memlist s).
        (flush_completed (heap s a) \<longrightarrow> flush_in_progress (heap s a)) \<and>
        (file_number (heap s a) \<noteq> 0 \<longrightarrow> flush_completed (heap s a)))"

text \<open>
  The states reached from an empty list by calls that return, under the protocol of the
  flush job: \<open>Add\<close> is given a new memtable, and \<open>InstallMemtableFlushResults\<close> is
  given members that are flush_in_progress, with any flush status, file number and
  behaviour of \<open>LogAndApply\<close>. The store of memtables, \<open>pending_outputs\<close> and the version
  set of the empty list are arbitrary.
\<close>

inductive reachable :: "('e, 'v) MemTableList \<Rightarrow> bool" where
  empty: "memlist s = [] \<Longrightarrow> list_size s = 0 \<Longrightarrow> num_flush_not_started s = 0 \<Longrightarrow>
     \<not> commit_in_progress s \<Longrightarrow> reachable s"
| add: "reachable s \<Longrightarrow> m \<notin> set (memlist s) \<Longrightarrow>
     \<not> flush_in_progress (heap s m) \<Longrightarrow> \<not> flush_completed (heap s m) \<Longrightarrow>
     file_number (heap s m) = 0 \<Longrightarrow> Add m s = Inr s' \<Longrightarrow> reachable s'"
| pick: "reachable s \<Longrightarrow> PickMemtablesToFlush s ret = Inr (s', ret') \<Longrightarrow> reachable s'"
| install: "reachable s \<Longrightarrow>
     \<forall>m\<in>set mems. m \<in> set (memlist s) \<and> flush_in_progress (heap s m) \<Longrightarrow>
     InstallMemtableFlushResults LogAndApply mems flushStatus fn s = Some (Inr (st', s')) \<Longrightarrow>
     reachable s'"

text \<open>
  A child after the resynchronisation to the key \<open>k\<close>: sought to \<open>k\<close> and, when it
  landed on \<open>k\<close> itself, advanced once.
\<close>

definition resynced :: "'k::linorder \<Rightarrow> 'k IteratorWrapper \<Rightarrow> 'k IteratorWrapper" where
  "resynced k c =
     (let c1 = Seek k c in if Valid c1 \<and> key_of c1 = k then Next c1 else c1)"

section \<open>Observations of a call and example states\<close>

text \<open>
  The state and the status of a call that returned.
\<close>

definition returned_state :: "(error + Status \<times> 's) option \<Rightarrow> 's option" where
  "returned_state r = (case r of Some (Inr (st, s)) \<Rightarrow> Some s | _ \<Rightarrow> None)"

definition returned_status :: "(error + Status \<times> 's) option \<Rightarrow> Status option" where
  "returned_status r = (case r of Some (Inr (st, s)) \<Rightarrow> Some st | _ \<Rightarrow> None)"

text \<open>
  Modelled from the spec: the constructors of \<open>MemTableList\<close> (db/memtablelist.h) and of
  \<open>MemTable\<close> (db/memtable.h) are not under src. An empty list has no member, both
  counters 0, the guard free and the signal clear; a new memtable is queued for nothing
  yet: not in progress, not completed, file number 0, one reference held by the list.
\<close>

definition empty_MemTableList ::
  "(addr \<Rightarrow> 'e MemTable) \<Rightarrow> 64 word set \<Rightarrow> 'v \<Rightarrow> ('e, 'v) MemTableList" where
  "empty_MemTableList h p v =
     \<lparr>memlist = [], list_size = 0, num_flush_not_started = 0, commit_in_progress = False,
      imm_flush_needed = False, heap = h, pending_outputs = p, vset = v\<rparr>"

definition new_MemTable :: "'e list \<Rightarrow> 'e MemTable" where
  "new_MemTable e =
     \<lparr>flush_in_progress = False, flush_completed = False, file_number = 0, edit = e, refs = 1\<rparr>"

text \<open>
  A version set for the examples: the list of the edits applied so far; it accepts edits
  until it holds \<open>limit\<close> of them and fails from then on.
\<close>

definition accept_edits :: "nat \<Rightarrow> 'e list list \<Rightarrow> 'e list \<Rightarrow> Status \<times> 'e list list" where
  "accept_edits limit applied e =
     (if length applied < limit then (OK, applied @ [e])
      else (Corruption ''manifest write failed'', applied))"

text \<open>
  The example states. Memtable 3 carries no edit, every other memtable \<open>a\<close> the edit
  \<open>[a]\<close>. \<open>idle_list\<close> is the empty list, \<open>one_queued\<close> the list after \<open>Add\<close> of memtable
  1, \<open>three_selected\<close> the list of 1, 2, 3 (1 the oldest) after they were picked, and
  \<open>three_flushed\<close> the same list after 2 and 3 were flushed together to file 11 while 1
  is still being flushed.
\<close>

definition fresh_memtables :: "addr \<Rightarrow> nat MemTable" where
  "fresh_memtables a = new_MemTable (if a = 3 then [] else [a])"

definition idle_list :: "(nat, nat list list) MemTableList" where
  "idle_list = empty_MemTableList fresh_memtables {10, 11} []"

definition one_queued :: "(nat, nat list list) MemTableList" where
  "one_queued =
     \<lparr>memlist = [1], list_size = 1, num_flush_not_started = 1, commit_in_progress = False,
      imm_flush_needed = True, heap = fresh_memtables, pending_outputs = {10, 11},
      vset = []\<rparr>"

definition three_selected :: "(nat, nat list list) MemTableList" where
  "three_selected =
     \<lparr>memlist = [3, 2, 1], list_size = 3, num_flush_not_started = 0,
      commit_in_progress = False, imm_flush_needed = False,
      heap = (\<lambda>a. \<lparr>flush_in_progress = (a \<in> {1, 2, 3}), flush_completed = False,
                     file_number = 0, edit = (if a = 3 then [] else [a]), refs = 1\<rparr>),
      pending_outputs = {10, 11}, vset = []\<rparr>"

definition three_flushed :: "(nat, nat list list) MemTableList" where
  "three_flushed =
     \<lparr>memlist = [3, 2, 1], list_size = 3, num_flush_not_started = 0,
      commit_in_progress = False, imm_flush_needed = False,
      heap = (\<lambda>a. \<lparr>flush_in_progress = (a \<in> {1, 2, 3}), flush_completed = (a = 2 \<or> a = 3),
                     file_number = (if a = 2 \<or> a = 3 then 11 else 0),
                     edit = (if a = 3 then [] else [a]), refs = 1\<rparr>),
      pending_outputs = {10, 11}, vset = []\<rparr>"

text \<open>
  Three members of which 2 is in progress and 1 and 3 are queued.
\<close>

definition two_queued :: "(nat, nat list list) MemTableList" where
  "two_queued =
     \<lparr>memlist = [3, 2, 1], list_size = 3, num_flush_not_started = 2,
      commit_in_progress = False, imm_flush_needed = True,
      heap = (\<lambda>a. \<lparr>flush_in_progress = (a = 2), flush_completed = False, file_number = 0,
                     edit = [], refs = 1\<rparr>),
      pending_outputs = {}, vset = []\<rparr>"

text \<open>
  A merging iterator going backwards over three children, standing on key 3 of child 0.
\<close>

definition three_children :: "nat MergingIterator" where
  "three_children =
     \<lparr>is_arena_mode = False, prefix_seek_mode = False, comparator = Some (=),
      children = [\<lparr>entries = [1, 3, 5], cursor = 1\<rparr>,
                  \<lparr>entries = [2, 3, 4], cursor = 0\<rparr>,
                  \<lparr>entries = [1, 2, 3], cursor = 2\<rparr>],
      current = Some 0, direction = kReverse, minHeap = [], maxHeap = Some [2, 0]\<rparr>"

section \<open>The loops over the batch\<close>

lemma reset_failed_flush_frame:
  "reset_failed_flush mems fn s = Inr s' \<Longrightarrow>
     memlist s' = memlist s \<and> list_size s' = list_size s \<and>
     commit_in_progress s' = commit_in_progress s \<and> vset s' = vset s \<and>
     num_flush_not_started s' = num_flush_not_started s + int (length mems)"
  by (induction mems arbitrary: s) (auto simp: Let_def split: if_splits)

lemma reset_failed_flush_signal:
  "reset_failed_flush mems fn s = Inr s' \<Longrightarrow>
     imm_flush_needed s' = (mems \<noteq> [] \<or> imm_flush_needed s) \<and>
     pending_outputs s' = (if mems = [] then pending_outputs s else pending_outputs s - {fn})"
  by (induction mems arbitrary: s) (auto simp: Let_def split: if_splits)

lemma reset_failed_flush_heap:
  "reset_failed_flush mems fn s = Inr s' \<Longrightarrow>
     heap s' a = (if a \<in> set mems
                  then (heap s a)\<lparr>flush_in_progress := False, flush_completed := False, edit := []\<rparr>
                  else heap s a)"
  by (induction mems arbitrary: s) (auto simp: Let_def split: if_splits)

lemma reset_failed_flush_returns:
  "distinct mems \<Longrightarrow> \<forall>m\<in>set mems. flush_in_progress (heap s m) \<and> file_number (heap s m) = 0 \<Longrightarrow>
     \<exists>s'. reset_failed_flush mems fn s = Inr s'"
proof (induction mems arbitrary: s)
  case Nil
  then show ?case by simp
next
  case (Cons m ms)
  let ?s = "s\<lparr>heap := (heap s)(m := (heap s m)\<lparr>flush_in_progress := False,
                 flush_completed := False, edit := []\<rparr>),
               num_flush_not_started := num_flush_not_started s + 1,
               imm_flush_needed := True,
               pending_outputs := pending_outputs s - {fn}\<rparr>"
  from Cons.prems have "distinct ms"
    and "\<forall>a\<in>set ms. flush_in_progress (heap ?s a) \<and> file_number (heap ?s a) = 0"
    by auto
  from Cons.IH [OF this] obtain s' where "reset_failed_flush ms fn ?s = Inr s'" ..
  with Cons.prems show ?case by (simp add: Let_def)
qed

lemma reset_failed_flush_pre:
  "reset_failed_flush mems fn s = Inr s' \<Longrightarrow>
     distinct mems \<and> (\<forall>m\<in>set mems. flush_in_progress (heap s m) \<and> file_number (heap s m) = 0)"
proof (induction mems arbitrary: s)
  case Nil
  then show ?case by simp
next
  case (Cons m ms)
  let ?s = "s\<lparr>heap := (heap s)(m := (heap s m)\<lparr>flush_in_progress := False,
                 flush_completed := False, edit := []\<rparr>),
               num_flush_not_started := num_flush_not_started s + 1,
               imm_flush_needed := True,
               pending_outputs := pending_outputs s - {fn}\<rparr>"
  from Cons.prems have m: "flush_in_progress (heap s m)" "file_number (heap s m) = 0"
    and r: "reset_failed_flush ms fn ?s = Inr s'"
    by (auto simp: Let_def split: if_splits)
  from Cons.IH [OF r] have d: "distinct ms"
    and a: "\<forall>a\<in>set ms. flush_in_progress (heap ?s a) \<and> file_number (heap ?s a) = 0"
    by blast+
  from a have "m \<notin> set ms" by auto
  moreover from a have "\<forall>a\<in>set ms. flush_in_progress (heap s a) \<and> file_number (heap s a) = 0"
    by (auto split: if_splits)
  ultimately show ?case using m d by simp
qed

lemma mark_flush_completed_eq:
  "mark_flush_completed mems first fn s = Inr s' \<Longrightarrow>
     s' = s\<lparr>heap := (\<lambda>a. if a \<in> set mems
                          then (heap s a)\<lparr>flush_completed := True, file_number := fn\<rparr>
                          else heap s a)\<rparr>"
proof (induction mems arbitrary: s first)
  case Nil
  then show ?case by simp
next
  case (Cons m ms)
  let ?s = "s\<lparr>heap := (heap s)(m := (heap s m)\<lparr>flush_completed := True, file_number := fn\<rparr>)\<rparr>"
  from Cons.prems have "mark_flush_completed ms False fn ?s = Inr s'"
    by (auto simp: Let_def split: if_splits)
  from Cons.IH [OF this] have "s' = ?s\<lparr>heap := (\<lambda>a. if a \<in> set ms
        then (heap ?s a)\<lparr>flush_completed := True, file_number := fn\<rparr> else heap ?s a)\<rparr>" .
  also have "\<dots> = s\<lparr>heap := (\<lambda>a. if a \<in> set (m # ms)
        then (heap s a)\<lparr>flush_completed := True, file_number := fn\<rparr> else heap s a)\<rparr>"
    by (auto simp: fun_eq_iff)
  finally show ?case .
qed

lemma mark_flush_completed_returns:
  "\<forall>m\<in>set (if first then tl mems else mems). edit (heap s m) = [] \<Longrightarrow>
     \<exists>s'. mark_flush_completed mems first fn s = Inr s'"
proof (induction mems arbitrary: s first)
  case Nil
  then show ?case by simp
next
  case (Cons m ms)
  let ?s = "s\<lparr>heap := (heap s)(m := (heap s m)\<lparr>flush_completed := True, file_number := fn\<rparr>)\<rparr>"
  from Cons.prems have "\<forall>a\<in>set (if False then tl ms else ms). edit (heap ?s a) = []"
    by (auto split: if_splits)
  from Cons.IH [OF this] obtain s' where "mark_flush_completed ms False fn ?s = Inr s'" ..
  with Cons.prems show ?case by (auto simp: Let_def split: if_splits)
qed

section \<open>The commit scan\<close>

lemma commit_batch_ok:
  "commit_batch m OK fn s =
     (case commit_one m s of
        Inl e \<Rightarrow> Some (Inl e)
      | Inr (st1, s1) \<Rightarrow>
          if memlist s1 \<noteq> [] \<and> file_number (heap s1 (last (memlist s1))) = fn
          then commit_batch (last (memlist s1)) st1 fn s1
          else Some (Inr (st1, s1)))"
  by (subst commit_batch.simps) simp

lemma commit_batch_fail:
  "\<not> ok st \<Longrightarrow> commit_batch m st fn s =
     (case rollback_one m s of
        (st1, s1) \<Rightarrow>
          if memlist s1 \<noteq> [] \<and> file_number (heap s1 (last (memlist s1))) = fn
          then commit_batch (last (memlist s1)) st1 fn s1
          else Some (Inr (st1, s1)))"
  by (subst commit_batch.simps) (simp split: prod.splits)

lemma removeAll_last_distinct:
  "distinct xs \<Longrightarrow> xs \<noteq> [] \<Longrightarrow> removeAll (last xs) xs = butlast xs"
  by (induction xs rule: rev_induct) (auto simp: distinct_removeAll)

lemma commit_one_last:
  "distinct (memlist s) \<Longrightarrow> memlist s \<noteq> [] \<Longrightarrow> m = last (memlist s) \<Longrightarrow>
   commit_one m s =
     (if file_number (heap s m) = 0 then Inl AssertionFailed
      else Inr (OK, s\<lparr>memlist := butlast (memlist s),
                      pending_outputs := pending_outputs s - {file_number (heap s m)},
                      heap := (heap s)(m := Unref (heap s m)),
                      list_size := list_size s - 1\<rparr>))"
  by (simp add: commit_one_def Let_def removeAll_last_distinct word_gt_0)

lemma rollback_one_eq:
  "rollback_one m s =
     (IOError ''Unable to commit flushed memtable'',
      s\<lparr>heap := (heap s)(m := rolled_back (heap s m)),
        num_flush_not_started := num_flush_not_started s + 1,
        pending_outputs := pending_outputs s - {file_number (heap s m)},
        imm_flush_needed := True\<rparr>)"
  by (simp add: rollback_one_def Let_def rolled_back_def)

lemma rolled_back_sel [simp]:
  "flush_completed (rolled_back mt) = False"
  "flush_in_progress (rolled_back mt) = False"
  "edit (rolled_back mt) = []"
  "file_number (rolled_back mt) = 0"
  "refs (rolled_back mt) = refs mt"
  by (simp_all add: rolled_back_def)

lemma Unref_sel [simp]:
  "flush_completed (Unref mt) = flush_completed mt"
  "flush_in_progress (Unref mt) = flush_in_progress mt"
  "edit (Unref mt) = edit mt"
  "file_number (Unref mt) = file_number mt"
  "refs (Unref mt) = refs mt - 1"
  by (simp_all add: Unref_def)

text \<open>
  After a rollback the memtable is still the back of the list and its file number is 0:
  under file number 0 the condition of the \<open>do ... while\<close> loop holds again, the status
  is still not ok, and the loop never ends. Under any other file number the loop ends
  after the rollback.
\<close>

lemma commit_batch_fail_zero_aux:
  assumes "commit_batch m st fn s = Some r"
  shows "\<not> (fn = 0 \<and> \<not> ok st \<and> memlist s \<noteq> [] \<and> m = last (memlist s))"
proof (rule commit_batch.raw_induct
    [where P = "\<lambda>m st fn s r. \<not> (fn = 0 \<and> \<not> ok st \<and> memlist s \<noteq> [] \<and> m = last (memlist s))",
     OF _ assms])
  fix cb :: "addr \<Rightarrow> Status \<Rightarrow> 64 word \<Rightarrow> ('a, 'b) MemTableList
     \<Rightarrow> (error + Status \<times> ('a, 'b) MemTableList) option"
  fix m st fn s r
  assume IH: "\<And>m st fn s r. cb m st fn s = Some r \<Longrightarrow>
    \<not> (fn = 0 \<and> \<not> ok st \<and> memlist s \<noteq> [] \<and> m = last (memlist s))"
  assume body: "(case if ok st then commit_one m s else Inr (rollback_one m s) of
      Inl e \<Rightarrow> Some (Inl e)
    | Inr (st1, s1) \<Rightarrow>
        if memlist s1 \<noteq> [] \<and> file_number (heap s1 (last (memlist s1))) = fn
        then cb (last (memlist s1)) st1 fn s1 else Some (Inr (st1, s1))) = Some r"
  show "\<not> (fn = 0 \<and> \<not> ok st \<and> memlist s \<noteq> [] \<and> m = last (memlist s))"
  proof
    assume a: "fn = 0 \<and> \<not> ok st \<and> memlist s \<noteq> [] \<and> m = last (memlist s)"
    with body have "cb m (IOError ''Unable to commit flushed memtable'') 0
        (snd (rollback_one m s)) = Some r"
      by (simp add: rollback_one_eq)
    from IH [OF this] a show False by (simp add: rollback_one_eq)
  qed
qed

lemma commit_batch_fail_last:
  assumes "\<not> ok st" "memlist s \<noteq> []" "m = last (memlist s)"
  shows "commit_batch m st fn s = (if fn = 0 then None else Some (Inr (rollback_one m s)))"
proof (cases "fn = 0")
  case True
  with assms commit_batch_fail_zero_aux [of m st fn s] show ?thesis
    by (cases "commit_batch m st fn s") auto
next
  case False
  with assms show ?thesis
    by (subst commit_batch_fail) (simp_all add: rollback_one_eq)
qed

lemma scan_effect_refl: "scan_effect s [] None s"
  by (simp add: scan_effect_def)

lemma scan_effect_vset: "scan_effect s [] None (s\<lparr>vset := v\<rparr>)"
  by (simp add: scan_effect_def)

lemma scan_effect_vset_left:
  "scan_effect (s\<lparr>vset := v\<rparr>) removed failed s' = scan_effect s removed failed s'"
  by (simp add: scan_effect_def)

lemma scan_effect_commit_one:
  assumes "memlist s \<noteq> []"
  shows "scan_effect s [last (memlist s)] None
     (s\<lparr>memlist := butlast (memlist s),
        pending_outputs := pending_outputs s - {file_number (heap s (last (memlist s)))},
        heap := (heap s)(last (memlist s) := Unref (heap s (last (memlist s)))),
        list_size := list_size s - 1\<rparr>)"
  using assms by (simp add: scan_effect_def)

lemma scan_effect_rollback:
  assumes "memlist s \<noteq> []"
  shows "scan_effect s [] (Some (last (memlist s))) (snd (rollback_one (last (memlist s)) s))"
  using assms by (simp add: scan_effect_def rollback_one_eq)

lemma scan_effect_trans:
  assumes d: "distinct (memlist s)"
    and 1: "scan_effect s r1 None s1"
    and 2: "scan_effect s1 r2 failed s2"
  shows "scan_effect s (r2 @ r1) failed s2"
proof -
  from 1 have m1: "memlist s = memlist s1 @ r1" by (simp add: scan_effect_def)
  from 2 have m2: "memlist s1 = memlist s2 @ r2" by (simp add: scan_effect_def)
  from d m1 m2 have dis: "set r1 \<inter> set r2 = {}" "set r1 \<inter> set (memlist s2) = {}"
    by auto
  from 2 have f: "\<forall>a. failed = Some a \<longrightarrow> memlist s2 \<noteq> [] \<and> last (memlist s2) = a"
    by (simp add: scan_effect_def)
  then have fin: "\<forall>a. failed = Some a \<longrightarrow> a \<in> set (memlist s2)"
    using last_in_set by blast
  with dis have fr1: "\<forall>a. failed = Some a \<longrightarrow> a \<notin> set r1" by blast
  from 1 have h1: "\<And>a. heap s1 a = (if a \<in> set r1 then Unref (heap s a) else heap s a)"
    by (simp add: scan_effect_def)
  from 2 have h2: "\<And>a. heap s2 a =
        (if a \<in> set r2 then Unref (heap s1 a)
         else if failed = Some a then rolled_back (heap s1 a)
         else heap s1 a)"
    by (simp add: scan_effect_def)
  have heap: "\<forall>a. heap s2 a =
        (if a \<in> set (r2 @ r1) then Unref (heap s a)
         else if failed = Some a then rolled_back (heap s a)
         else heap s a)"
    using dis fr1 by (auto simp: h1 h2)
  have same: "\<And>a. a \<in> set r2 \<union> set_option failed \<Longrightarrow> file_number (heap s1 a) = file_number (heap s a)"
    using dis fr1 by (auto simp: h1)
  from 1 have p1: "pending_outputs s1 = pending_outputs s - (\<lambda>a. file_number (heap s a)) ` set r1"
    by (simp add: scan_effect_def)
  from 2 have p2: "pending_outputs s2 =
      pending_outputs s1 - (\<lambda>a. file_number (heap s1 a)) ` (set r2 \<union> set_option failed)"
    by (simp add: scan_effect_def)
  have "(\<lambda>a. file_number (heap s1 a)) ` (set r2 \<union> set_option failed)
      = (\<lambda>a. file_number (heap s a)) ` (set r2 \<union> set_option failed)"
    using same by (intro image_cong) auto
  with p1 p2 have pend: "pending_outputs s2 =
      pending_outputs s - (\<lambda>a. file_number (heap s a)) ` (set (r2 @ r1) \<union> set_option failed)"
    by (auto simp: image_Un)
  from 1 2 have rest: "list_size s2 = list_size s - int (length (r2 @ r1))"
    "commit_in_progress s2 = commit_in_progress s"
    "num_flush_not_started s2 = num_flush_not_started s + (if failed = None then 0 else 1)"
    "imm_flush_needed s2 = (failed \<noteq> None \<or> imm_flush_needed s)"
    by (simp_all add: scan_effect_def)
  from m1 m2 have "memlist s = memlist s2 @ (r2 @ r1)" by simp
  with f rest pend heap show ?thesis
    unfolding scan_effect_def by blast
qed

lemma ok_iff: "ok st \<longleftrightarrow> st = OK"
  by (cases st) simp_all

lemma commit_batch_ok_effect:
  assumes "distinct (memlist s)" and "memlist s \<noteq> []" and "m = last (memlist s)"
    and "commit_batch m OK fn s = Some (Inr (st', s'))"
  shows "st' = OK \<and> vset s' = vset s \<and>
    (\<exists>removed. scan_effect s removed None s' \<and> removed \<noteq> [] \<and> last removed = m \<and>
       (\<forall>a\<in>set removed. file_number (heap s a) \<noteq> 0) \<and>
       (\<forall>a\<in>set (butlast removed). file_number (heap s a) = fn) \<and>
       (memlist s' \<noteq> [] \<longrightarrow> file_number (heap s (last (memlist s'))) \<noteq> fn))"
  using assms
proof (induction "length (memlist s)" arbitrary: s m rule: less_induct)
  case less
  let ?s1 = "s\<lparr>memlist := butlast (memlist s),
      pending_outputs := pending_outputs s - {file_number (heap s m)},
      heap := (heap s)(m := Unref (heap s m)),
      list_size := list_size s - 1\<rparr>"
  let ?m1 = "last (memlist ?s1)"
  note one = commit_one_last [OF less.prems(1-3)]
  have nz: "file_number (heap s m) \<noteq> 0"
  proof
    assume "file_number (heap s m) = 0"
    with one have "commit_batch m OK fn s = Some (Inl AssertionFailed)"
      by (subst commit_batch_ok) simp
    with less.prems(4) show False by simp
  qed
  have unfold: "commit_batch m OK fn s =
      (if memlist ?s1 \<noteq> [] \<and> file_number (heap ?s1 ?m1) = fn
       then commit_batch ?m1 OK fn ?s1 else Some (Inr (OK, ?s1)))"
    using one nz by (subst commit_batch_ok) simp
  have res:
    "(if memlist ?s1 \<noteq> [] \<and> file_number (heap ?s1 ?m1) = fn
       then commit_batch ?m1 OK fn ?s1 else Some (Inr (OK, ?s1))) = Some (Inr (st', s'))"
    by (rule trans [OF unfold [symmetric] less.prems(4)])
  have file1: "\<And>a. file_number (heap ?s1 a) = file_number (heap s a)"
    by simp
  have eff1: "scan_effect s [m] None ?s1"
    using scan_effect_commit_one [OF less.prems(2)] less.prems(3) by simp
  show ?case
  proof (cases "memlist ?s1 \<noteq> [] \<and> file_number (heap ?s1 ?m1) = fn")
    case False
    from res [unfolded if_not_P [OF False]]
    have r: "st' = OK" "s' = ?s1" by simp_all
    from False have "memlist ?s1 \<noteq> [] \<longrightarrow> file_number (heap s ?m1) \<noteq> fn"
      unfolding file1 by blast
    with r eff1 nz show ?thesis
      by (intro conjI exI [of _ "[m]"]) simp_all
  next
    case True
    note rec = res [unfolded if_P [OF True]]
    from less.prems(1) have d1: "distinct (memlist ?s1)"
      by (simp add: distinct_butlast)
    from less.prems(2) have len: "length (memlist ?s1) < length (memlist s)"
      by simp
    from True have ne1: "memlist ?s1 \<noteq> []" by blast
    from less.hyps [OF len d1 ne1 refl rec] obtain removed where
      st: "st' = OK" and v: "vset s' = vset ?s1"
      and eff: "scan_effect ?s1 removed None s'"
      and rne: "removed \<noteq> []" and rl: "last removed = ?m1"
      and rnz: "\<forall>a\<in>set removed. file_number (heap ?s1 a) \<noteq> 0"
      and rfn: "\<forall>a\<in>set (butlast removed). file_number (heap ?s1 a) = fn"
      and stop: "memlist s' \<noteq> [] \<longrightarrow> file_number (heap ?s1 (last (memlist s'))) \<noteq> fn"
      by blast
    from scan_effect_trans [OF less.prems(1) eff1 eff]
    have e: "scan_effect s (removed @ [m]) None s'" .
    from rne have "set removed = set (butlast removed @ [last removed])"
      by simp
    then have "set removed = insert (last removed) (set (butlast removed))"
      by (simp del: append_butlast_last_id)
    with rfn rl True have allfn: "\<forall>a\<in>set removed. file_number (heap ?s1 a) = fn"
      by auto
    have "\<forall>a\<in>set (removed @ [m]). file_number (heap s a) \<noteq> 0"
      using rnz nz unfolding file1 by auto
    moreover have "\<forall>a\<in>set (butlast (removed @ [m])). file_number (heap s a) = fn"
      using allfn unfolding file1 by (simp add: butlast_append)
    moreover have "memlist s' \<noteq> [] \<longrightarrow> file_number (heap s (last (memlist s'))) \<noteq> fn"
      using stop unfolding file1 .
    ultimately show ?thesis using st v e
      by (intro conjI exI [of _ "removed @ [m]"]) simp_all
  qed
qed

lemma commit_scan_not_ok:
  "\<not> ok st \<Longrightarrow> commit_scan LogAndApply st fn s = Some (Inr (st, s))"
  by (subst commit_scan.simps) simp

lemma commit_scan_empty:
  "memlist s = [] \<Longrightarrow> commit_scan LogAndApply st fn s = Some (Inr (st, s))"
  by (subst commit_scan.simps) simp

lemma commit_scan_incomplete:
  "memlist s \<noteq> [] \<Longrightarrow> \<not> flush_completed (heap s (last (memlist s))) \<Longrightarrow>
     commit_scan LogAndApply st fn s = Some (Inr (st, s))"
  by (subst commit_scan.simps) simp

lemma commit_scan_step:
  "memlist s \<noteq> [] \<Longrightarrow> flush_completed (heap s (last (memlist s))) \<Longrightarrow>
     LogAndApply (vset s) (edit (heap s (last (memlist s)))) = (st1, v1) \<Longrightarrow>
     commit_scan LogAndApply OK fn s =
       (case commit_batch (last (memlist s)) st1 fn (s\<lparr>vset := v1\<rparr>) of
          None \<Rightarrow> None
        | Some (Inl e) \<Rightarrow> Some (Inl e)
        | Some (Inr (st2, s2)) \<Rightarrow> commit_scan LogAndApply st2 fn s2)"
  by (subst commit_scan.simps) simp

lemma commit_scan_effect:
  assumes "distinct (memlist s)"
    and "commit_scan LogAndApply OK fn s = Some (Inr (st', s'))"
  shows "\<exists>removed failed. scan_outcome LogAndApply fn s removed failed st' s'"
  using assms
proof (induction "length (memlist s)" arbitrary: s rule: less_induct)
  case less
  show ?case
  proof (cases "memlist s \<noteq> [] \<and> flush_completed (heap s (last (memlist s)))")
    case False
    then have "commit_scan LogAndApply OK fn s = Some (Inr (OK, s))"
      using commit_scan_empty commit_scan_incomplete by blast
    with less.prems(2) have "st' = OK" "s' = s" by simp_all
    with False have "scan_outcome LogAndApply fn s [] None st' s'"
      by (auto simp: scan_outcome_def scan_effect_refl)
    then show ?thesis by blast
  next
    case True
    let ?m = "last (memlist s)"
    obtain st1 v1 where la: "LogAndApply (vset s) (edit (heap s ?m)) = (st1, v1)"
      by (cases "LogAndApply (vset s) (edit (heap s ?m))")
    let ?sv = "s\<lparr>vset := v1\<rparr>"
    from True have ne: "memlist s \<noteq> []" and comp: "flush_completed (heap s ?m)"
      by blast+
    note step = commit_scan_step [of s LogAndApply st1 v1 fn, OF ne comp la]
    show ?thesis
    proof (cases "ok st1")
      case False
      have "commit_batch ?m st1 fn ?sv =
          (if fn = 0 then None else Some (Inr (rollback_one ?m ?sv)))"
        using False ne by (intro commit_batch_fail_last) simp_all
      with step less.prems(2) have fnz: "fn \<noteq> 0"
        and r: "commit_scan LogAndApply (fst (rollback_one ?m ?sv)) fn (snd (rollback_one ?m ?sv))
           = Some (Inr (st', s'))"
        by (auto split: if_splits prod.splits)
      have "\<not> ok (fst (rollback_one ?m ?sv))"
        by (simp add: rollback_one_eq)
      from commit_scan_not_ok [OF this, of LogAndApply fn "snd (rollback_one ?m ?sv)"] r
      have "Inr (fst (rollback_one ?m ?sv), snd (rollback_one ?m ?sv)) = Inr (st', s')"
        by simp
      then have st: "st' = IOError ''Unable to commit flushed memtable''"
        and s': "s' = snd (rollback_one ?m ?sv)"
        by (simp_all add: rollback_one_eq)
      from ne have "scan_effect ?sv [] (Some (last (memlist ?sv))) (snd (rollback_one (last (memlist ?sv)) ?sv))"
        by (intro scan_effect_rollback) simp
      then have "scan_effect s [] (Some ?m) s'"
        by (simp add: s' scan_effect_vset_left)
      moreover have "\<not> ok (fst (LogAndApply (vset s) (edit (heap s ?m))))"
        "vset s' = snd (LogAndApply (vset s) (edit (heap s ?m)))"
        using False la by (simp_all add: s' rollback_one_eq)
      ultimately have "scan_outcome LogAndApply fn s [] (Some ?m) st' s'"
        using st comp fnz by (auto simp: scan_outcome_def)
      then show ?thesis by blast
    next
      case ok1: True
      then have st1: "st1 = OK" by (simp add: ok_iff)
      from step less.prems(2) obtain st2 s2 where
        b: "commit_batch ?m OK fn ?sv = Some (Inr (st2, s2))"
        and r: "commit_scan LogAndApply st2 fn s2 = Some (Inr (st', s'))"
        unfolding st1 by (auto split: option.splits sum.splits prod.splits)
      have dv: "distinct (memlist ?sv)" "memlist ?sv \<noteq> []" "?m = last (memlist ?sv)"
        using less.prems(1) ne by simp_all
      from commit_batch_ok_effect [OF dv b] obtain removed1 where
        st2: "st2 = OK"
        and e1: "scan_effect ?sv removed1 None s2"
        and rne: "removed1 \<noteq> []" and rl: "last removed1 = ?m"
        and rnz: "\<forall>a\<in>set removed1. file_number (heap ?sv a) \<noteq> 0"
        and rfn: "\<forall>a\<in>set (butlast removed1). file_number (heap ?sv a) = fn"
        by blast
      from e1 have e1': "scan_effect s removed1 None s2"
        by (simp add: scan_effect_vset_left)
      then have m1: "memlist s = memlist s2 @ removed1"
        and h1: "\<And>a. heap s2 a = (if a \<in> set removed1 then Unref (heap s a) else heap s a)"
        by (simp_all add: scan_effect_def)
      from m1 rne have len: "length (memlist s2) < length (memlist s)" by simp
      from m1 less.prems(1) have d2: "distinct (memlist s2)" by simp
      from less.hyps [OF len d2 r [unfolded st2]] obtain removed2 failed where
        o2: "scan_outcome LogAndApply fn s2 removed2 failed st' s'" by blast
      then have e2: "scan_effect s2 removed2 failed s'"
        by (simp add: scan_outcome_def)
      from scan_effect_trans [OF less.prems(1) e1' e2]
      have e: "scan_effect s (removed2 @ removed1) failed s'" .
      have comp2: "\<And>a. flush_completed (heap s2 a) = flush_completed (heap s a)"
        and file2: "\<And>a. file_number (heap s2 a) = file_number (heap s a)"
        and edit2: "\<And>a. edit (heap s2 a) = edit (heap s a)"
        by (simp_all add: h1)
      from rne have "set removed1 = set (butlast removed1 @ [last removed1])"
        by simp
      then have "set removed1 = insert ?m (set (butlast removed1))"
        by (simp add: rl del: append_butlast_last_id)
      with rnz rfn comp have r1: "\<forall>a\<in>set removed1. file_number (heap s a) \<noteq> 0 \<and>
          (flush_completed (heap s a) \<or> file_number (heap s a) = fn)"
        by auto
      from o2 have r2: "\<forall>a\<in>set removed2. file_number (heap s a) \<noteq> 0 \<and>
          (flush_completed (heap s a) \<or> file_number (heap s a) = fn)"
        by (simp add: scan_outcome_def comp2 file2)
      from o2 have fin: "(case failed of
          None \<Rightarrow> st' = OK \<and>
            (memlist s' \<noteq> [] \<longrightarrow> \<not> flush_completed (heap s (last (memlist s'))))
        | Some a \<Rightarrow> st' = IOError ''Unable to commit flushed memtable'' \<and>
            flush_completed (heap s a) \<and> fn \<noteq> 0 \<and>
            (\<exists>v. \<not> ok (fst (LogAndApply v (edit (heap s a)))) \<and>
               vset s' = snd (LogAndApply v (edit (heap s a)))))"
        by (auto simp: scan_outcome_def comp2 file2 edit2 split: option.splits)
      from e r1 r2 fin have "scan_outcome LogAndApply fn s (removed2 @ removed1) failed st' s'"
        unfolding scan_outcome_def by auto
      then show ?thesis by blast
    qed
  qed
qed

lemma commit_batch_ok_returns:
  assumes "distinct (memlist s)" and "memlist s \<noteq> []" and "m = last (memlist s)"
  shows "\<exists>r. commit_batch m OK fn s = Some r"
  using assms
proof (induction "length (memlist s)" arbitrary: s m rule: less_induct)
  case less
  let ?s1 = "s\<lparr>memlist := butlast (memlist s),
      pending_outputs := pending_outputs s - {file_number (heap s m)},
      heap := (heap s)(m := Unref (heap s m)),
      list_size := list_size s - 1\<rparr>"
  let ?m1 = "last (memlist ?s1)"
  note one = commit_one_last [OF less.prems(1-3)]
  show ?case
  proof (cases "file_number (heap s m) = 0")
    case True
    with one have "commit_batch m OK fn s = Some (Inl AssertionFailed)"
      by (subst commit_batch_ok) simp
    then show ?thesis by blast
  next
    case False
    have unfold: "commit_batch m OK fn s =
      (if memlist ?s1 \<noteq> [] \<and> file_number (heap ?s1 ?m1) = fn
       then commit_batch ?m1 OK fn ?s1 else Some (Inr (OK, ?s1)))"
      using one False by (subst commit_batch_ok) simp
    show ?thesis
    proof (cases "memlist ?s1 \<noteq> [] \<and> file_number (heap ?s1 ?m1) = fn")
      case c: False
      show ?thesis unfolding unfold if_not_P [OF c] by blast
    next
      case c: True
      from less.prems(1) have d1: "distinct (memlist ?s1)"
        by (simp add: distinct_butlast)
      from less.prems(2) have len: "length (memlist ?s1) < length (memlist s)"
        by simp
      from c have ne1: "memlist ?s1 \<noteq> []" by blast
      from less.hyps [OF len d1 ne1 refl]
      show ?thesis unfolding unfold if_P [OF c] .
    qed
  qed
qed

lemma commit_scan_returns:
  assumes "distinct (memlist s)" and "fn \<noteq> 0"
  shows "\<exists>r. commit_scan LogAndApply OK fn s = Some r"
  using assms
proof (induction "length (memlist s)" arbitrary: s rule: less_induct)
  case less
  show ?case
  proof (cases "memlist s \<noteq> [] \<and> flush_completed (heap s (last (memlist s)))")
    case False
    then have "commit_scan LogAndApply OK fn s = Some (Inr (OK, s))"
      using commit_scan_empty commit_scan_incomplete by blast
    then show ?thesis by blast
  next
    case True
    let ?m = "last (memlist s)"
    obtain st1 v1 where la: "LogAndApply (vset s) (edit (heap s ?m)) = (st1, v1)"
      by (cases "LogAndApply (vset s) (edit (heap s ?m))")
    let ?sv = "s\<lparr>vset := v1\<rparr>"
    from True have ne: "memlist s \<noteq> []" and comp: "flush_completed (heap s ?m)"
      by blast+
    note step = commit_scan_step [of s LogAndApply st1 v1 fn, OF ne comp la]
    show ?thesis
    proof (cases "ok st1")
      case False
      have "commit_batch ?m st1 fn ?sv = Some (Inr (rollback_one ?m ?sv))"
        using False ne less.prems(2) by (subst commit_batch_fail_last) simp_all
      with step have "commit_scan LogAndApply OK fn s =
          commit_scan LogAndApply (fst (rollback_one ?m ?sv)) fn (snd (rollback_one ?m ?sv))"
        by (simp add: case_prod_beta)
      moreover have "\<not> ok (fst (rollback_one ?m ?sv))"
        by (simp add: rollback_one_eq)
      note commit_scan_not_ok [OF this, of LogAndApply fn "snd (rollback_one ?m ?sv)"]
      ultimately show ?thesis by simp
    next
      case ok1: True
      then have st1: "st1 = OK" by (simp add: ok_iff)
      have dv: "distinct (memlist ?sv)" "memlist ?sv \<noteq> []" "?m = last (memlist ?sv)"
        using less.prems(1) ne by simp_all
      from commit_batch_ok_returns [OF dv] obtain r where
        b: "commit_batch ?m OK fn ?sv = Some r" by blast
      show ?thesis
      proof (cases r)
        case (Inl e)
        with step b st1 show ?thesis by simp
      next
        case (Inr p)
        obtain st2 s2 where p: "p = (st2, s2)" by (cases p)
        with Inr b have b': "commit_batch ?m OK fn ?sv = Some (Inr (st2, s2))" by simp
        from commit_batch_ok_effect [OF dv b'] obtain removed1 where
          st2: "st2 = OK"
          and e1: "scan_effect ?sv removed1 None s2"
          and rne: "removed1 \<noteq> []"
          by blast
        from e1 have m1: "memlist s = memlist s2 @ removed1"
          by (simp add: scan_effect_def)
        from m1 rne have len: "length (memlist s2) < length (memlist s)" by simp
        from m1 less.prems(1) have d2: "distinct (memlist s2)" by simp
        from less.hyps [OF len d2 less.prems(2)] obtain r2 where
          "commit_scan LogAndApply OK fn s2 = Some r2" by blast
        with step b' st1 st2 show ?thesis by simp
      qed
    qed
  qed
qed

lemma marked_sel [simp]:
  "memlist (marked mems fn s) = memlist s"
  "list_size (marked mems fn s) = list_size s"
  "num_flush_not_started (marked mems fn s) = num_flush_not_started s"
  "commit_in_progress (marked mems fn s) = commit_in_progress s"
  "imm_flush_needed (marked mems fn s) = imm_flush_needed s"
  "pending_outputs (marked mems fn s) = pending_outputs s"
  "vset (marked mems fn s) = vset s"
  "heap (marked mems fn s) a =
     (if a \<in> set mems then (heap s a)\<lparr>flush_completed := True, file_number := fn\<rparr>
      else heap s a)"
  by (simp_all add: marked_def)

lemma mark_flush_completed_marked:
  "mark_flush_completed mems first fn s = Inr s' \<Longrightarrow> s' = marked mems fn s"
  unfolding marked_def by (rule mark_flush_completed_eq)

lemma scan_effect_guard:
  "scan_effect (s\<lparr>commit_in_progress := True\<rparr>) removed failed s2 \<Longrightarrow>
     \<not> commit_in_progress s \<Longrightarrow>
     scan_effect s removed failed (s2\<lparr>commit_in_progress := False\<rparr>)"
  by (simp add: scan_effect_def)

lemma Install_ok_outcome:
  assumes "ok flushStatus" and "\<not> commit_in_progress s" and "distinct (memlist s)"
    and "InstallMemtableFlushResults LogAndApply mems flushStatus fn s = Some (Inr (st', s'))"
  shows "\<exists>removed failed.
     scan_outcome LogAndApply fn (marked mems fn s) removed failed st' s'"
proof -
  from assms(1,4) obtain s0 where m: "mark_flush_completed mems True fn s = Inr s0"
    by (auto simp: InstallMemtableFlushResults_def split: sum.splits)
  then have s0: "s0 = marked mems fn s" by (rule mark_flush_completed_marked)
  let ?g = "s0\<lparr>commit_in_progress := True\<rparr>"
  from assms(1,2,4) m s0 obtain s2 where
    sc: "commit_scan LogAndApply OK fn ?g = Some (Inr (st', s2))"
    and s': "s' = s2\<lparr>commit_in_progress := False\<rparr>"
    by (auto simp: InstallMemtableFlushResults_def split: option.splits sum.splits)
  from assms(3) s0 have "distinct (memlist ?g)" by simp
  from commit_scan_effect [OF this sc] obtain removed failed where
    o: "scan_outcome LogAndApply fn ?g removed failed st' s2" by blast
  then have "scan_effect ?g removed failed s2" by (simp add: scan_outcome_def)
  from scan_effect_guard [OF this] assms(2) s0 s'
  have "scan_effect s0 removed failed s'" by simp
  with o have "scan_outcome LogAndApply fn s0 removed failed st' s'"
    by (auto simp: scan_outcome_def s' split: option.splits)
  with s0 show ?thesis by blast
qed

lemma Install_returns:
  assumes "distinct (memlist s)" and "fn \<noteq> 0"
  shows "\<exists>r. InstallMemtableFlushResults LogAndApply mems flushStatus fn s = Some r"
proof (cases "ok flushStatus")
  case False
  then show ?thesis
    by (simp add: InstallMemtableFlushResults_def split: sum.splits)
next
  case True
  show ?thesis
  proof (cases "mark_flush_completed mems True fn s")
    case (Inl e)
    with True show ?thesis by (simp add: InstallMemtableFlushResults_def)
  next
    case (Inr s0)
    then have s0: "s0 = marked mems fn s" by (rule mark_flush_completed_marked)
    with assms(1) have "distinct (memlist (s0\<lparr>commit_in_progress := True\<rparr>))" by simp
    from commit_scan_returns [OF this assms(2)] obtain r where
      "commit_scan LogAndApply OK fn (s0\<lparr>commit_in_progress := True\<rparr>) = Some r" by blast
    with True Inr show ?thesis
      by (simp add: InstallMemtableFlushResults_def split: sum.splits prod.splits)
  qed
qed

section \<open>Selection of the memtables to flush\<close>

lemma pick_loop_effect:
  assumes "pick_loop it s ret = Inr (s', ret')"
  shows "\<exists>picked. ret' = ret @ picked \<and> distinct picked \<and>
      set picked = {a \<in> set it. \<not> flush_in_progress (heap s a)} \<and>
      subseq picked it \<and>
      s' = s\<lparr>num_flush_not_started := num_flush_not_started s - int (length picked),
             imm_flush_needed :=
               (if 0 < num_flush_not_started s \<and> num_flush_not_started s \<le> int (length picked)
                then False else imm_flush_needed s),
             heap := (\<lambda>a. if a \<in> set picked then (heap s a)\<lparr>flush_in_progress := True\<rparr>
                          else heap s a)\<rparr>"
  using assms
proof (induction it arbitrary: s ret)
  case Nil
  then show ?case by auto
next
  case (Cons m it)
  show ?case
  proof (cases "flush_in_progress (heap s m)")
    case True
    with Cons.prems have "pick_loop it s ret = Inr (s', ret')" by simp
    from Cons.IH [OF this] obtain picked where
      p: "ret' = ret @ picked" "distinct picked"
        "set picked = {a \<in> set it. \<not> flush_in_progress (heap s a)}"
        "subseq picked it"
      and s': "s' = s\<lparr>num_flush_not_started := num_flush_not_started s - int (length picked),
             imm_flush_needed :=
               (if 0 < num_flush_not_started s \<and> num_flush_not_started s \<le> int (length picked)
                then False else imm_flush_needed s),
             heap := (\<lambda>a. if a \<in> set picked then (heap s a)\<lparr>flush_in_progress := True\<rparr>
                          else heap s a)\<rparr>"
      by blast
    from p True have "set picked = {a \<in> set (m # it). \<not> flush_in_progress (heap s a)}"
      by auto
    moreover from p(4) have "subseq picked (m # it)" by (rule list_emb.list_emb_Cons)
    ultimately show ?thesis using p(1,2) s' by blast
  next
    case False
    let ?n = "num_flush_not_started s"
    let ?s3 = "s\<lparr>num_flush_not_started := ?n - 1,
        imm_flush_needed := (if ?n - 1 = 0 then False else imm_flush_needed s),
        heap := (heap s)(m := (heap s m)\<lparr>flush_in_progress := True\<rparr>)\<rparr>"
    from Cons.prems False have nc: "\<not> flush_completed (heap s m)"
      by (auto split: if_splits)
    with Cons.prems False have "pick_loop it ?s3 (ret @ [m]) = Inr (s', ret')"
      by (auto simp: Let_def split: if_splits)
    from Cons.IH [OF this] obtain picked where
      p: "ret' = (ret @ [m]) @ picked" "distinct picked"
        "set picked = {a \<in> set it. \<not> flush_in_progress (heap ?s3 a)}"
        "subseq picked it"
      and s': "s' = ?s3\<lparr>num_flush_not_started := num_flush_not_started ?s3 - int (length picked),
             imm_flush_needed :=
               (if 0 < num_flush_not_started ?s3 \<and> num_flush_not_started ?s3 \<le> int (length picked)
                then False else imm_flush_needed ?s3),
             heap := (\<lambda>a. if a \<in> set picked then (heap ?s3 a)\<lparr>flush_in_progress := True\<rparr>
                          else heap ?s3 a)\<rparr>"
      by blast
    from p(3) have mp: "m \<notin> set picked" by auto
    have 1: "ret' = ret @ (m # picked)" using p(1) by simp
    have 2: "distinct (m # picked)" using p(2) mp by simp
    have 3: "set (m # picked) = {a \<in> set (m # it). \<not> flush_in_progress (heap s a)}"
      using p(3) False by auto
    have 4: "subseq (m # picked) (m # it)" using p(4) by simp
    have h: "(\<lambda>a. if a \<in> set picked then (heap ?s3 a)\<lparr>flush_in_progress := True\<rparr> else heap ?s3 a)
        = (\<lambda>a. if a \<in> set (m # picked) then (heap s a)\<lparr>flush_in_progress := True\<rparr> else heap s a)"
      using mp by (auto simp: fun_eq_iff)
    have 5: "s' = s\<lparr>num_flush_not_started := ?n - int (length (m # picked)),
             imm_flush_needed :=
               (if 0 < ?n \<and> ?n \<le> int (length (m # picked))
                then False else imm_flush_needed s),
             heap := (\<lambda>a. if a \<in> set (m # picked) then (heap s a)\<lparr>flush_in_progress := True\<rparr>
                          else heap s a)\<rparr>"
      unfolding s' h [symmetric] by (simp add: algebra_simps)
    from 1 2 3 4 5 show ?thesis by blast
  qed
qed

section \<open>The invariant of the list\<close>

lemma filter_count_more:
  assumes "distinct xs" and "distinct ms" and "set ms \<subseteq> set xs"
    and "\<forall>a\<in>set ms. \<not> P a" and "\<forall>a\<in>set xs. Q a = (a \<in> set ms \<or> P a)"
  shows "length (filter Q xs) = length (filter P xs) + length ms"
proof -
  have "{a \<in> set xs. Q a} = {a \<in> set xs. P a} \<union> set ms"
    using assms(3,5) by auto
  moreover have "{a \<in> set xs. P a} \<inter> set ms = {}"
    using assms(4) by auto
  ultimately have "card {a \<in> set xs. Q a} = card {a \<in> set xs. P a} + card (set ms)"
    by (simp add: card_Un_disjoint)
  moreover have "length (filter Q xs) = card {a \<in> set xs. Q a}"
    using assms(1) by (simp add: distinct_length_filter Int_def conj_commute)
  moreover have "length (filter P xs) = card {a \<in> set xs. P a}"
    using assms(1) by (simp add: distinct_length_filter Int_def conj_commute)
  ultimately show ?thesis using assms(2) by (simp add: distinct_card)
qed

lemma list_inv_bounds:
  "list_inv s \<Longrightarrow> 0 \<le> num_flush_not_started s \<and> num_flush_not_started s \<le> list_size s \<and>
     list_size s = int (length (memlist s))"
  by (simp add: list_inv_def)

lemma list_inv_Add:
  assumes "list_inv s" and "m \<notin> set (memlist s)"
    and "\<not> flush_in_progress (heap s m)" and "\<not> flush_completed (heap s m)"
    and "file_number (heap s m) = 0" and "Add m s = Inr s'"
  shows "list_inv s'"
  using assms by (auto simp: list_inv_def Add_def Let_def split: if_splits)

lemma list_inv_Pick:
  assumes "list_inv s" and "PickMemtablesToFlush s ret = Inr (s', ret')"
  shows "list_inv s'"
proof -
  from pick_loop_effect [OF assms(2) [unfolded PickMemtablesToFlush_def]]
  obtain picked where d: "distinct picked"
    and sp: "set picked = {a \<in> set (rev (memlist s)). \<not> flush_in_progress (heap s a)}"
    and s': "s' = s\<lparr>num_flush_not_started := num_flush_not_started s - int (length picked),
             imm_flush_needed :=
               (if 0 < num_flush_not_started s \<and> num_flush_not_started s \<le> int (length picked)
                then False else imm_flush_needed s),
             heap := (\<lambda>a. if a \<in> set picked then (heap s a)\<lparr>flush_in_progress := True\<rparr>
                          else heap s a)\<rparr>"
    by blast
  from assms(1) have dl: "distinct (memlist s)" by (simp add: list_inv_def)
  have "set picked = set (filter (\<lambda>a. \<not> flush_in_progress (heap s a)) (memlist s))"
    using sp by auto
  with d dl have "length picked = length (filter (\<lambda>a. \<not> flush_in_progress (heap s a)) (memlist s))"
    by (metis distinct_card distinct_filter)
  with assms(1) have n: "num_flush_not_started s = int (length picked)"
    by (simp add: list_inv_def)
  have all: "\<forall>a\<in>set (memlist s). flush_in_progress (heap s' a)"
    using sp by (auto simp: s')
  then have "filter (\<lambda>a. \<not> flush_in_progress (heap s' a)) (memlist s) = []"
    by (simp add: filter_empty_conv)
  moreover have "memlist s' = memlist s" "list_size s' = list_size s"
    "commit_in_progress s' = commit_in_progress s"
    "num_flush_not_started s' = 0"
    by (simp_all add: s' n)
  moreover have "\<forall>a. flush_completed (heap s' a) = flush_completed (heap s a) \<and>
      file_number (heap s' a) = file_number (heap s a)"
    by (simp add: s')
  ultimately show ?thesis using assms(1) all
    by (simp add: list_inv_def)
qed

lemma list_inv_Install_failed:
  assumes "list_inv s" and "\<not> ok flushStatus" and "set mems \<subseteq> set (memlist s)"
    and "InstallMemtableFlushResults LogAndApply mems flushStatus fn s = Some (Inr (st', s'))"
  shows "list_inv s'"
proof -
  from assms(2,4) have r: "reset_failed_flush mems fn s = Inr s'"
    by (auto simp: InstallMemtableFlushResults_def split: sum.splits)
  note fr = reset_failed_flush_frame [OF r] and hp = reset_failed_flush_heap [OF r]
    and pre = reset_failed_flush_pre [OF r]
  let ?P = "\<lambda>a. \<not> flush_in_progress (heap s a)"
  let ?Q = "\<lambda>a. \<not> flush_in_progress (heap s' a)"
  from assms(1) have dl: "distinct (memlist s)" by (simp add: list_inv_def)
  have "length (filter ?Q (memlist s)) = length (filter ?P (memlist s)) + length mems"
    using dl pre assms(3) by (intro filter_count_more) (auto simp: hp)
  with assms(1) fr have "num_flush_not_started s' =
      int (length (filter ?Q (memlist s')))"
    by (simp add: list_inv_def)
  moreover have "\<forall>a\<in>set (memlist s').
        (flush_completed (heap s' a) \<longrightarrow> flush_in_progress (heap s' a)) \<and>
        (file_number (heap s' a) \<noteq> 0 \<longrightarrow> flush_completed (heap s' a))"
    using assms(1) fr pre by (auto simp: list_inv_def hp)
  ultimately show ?thesis using assms(1) fr by (simp add: list_inv_def)
qed

lemma list_inv_scan_outcome:
  assumes d: "distinct (memlist s0)"
    and sz: "list_size s0 = int (length (memlist s0))"
    and n: "num_flush_not_started s0 =
       int (length (filter (\<lambda>a. \<not> flush_in_progress (heap s0 a)) (memlist s0)))"
    and g: "\<not> commit_in_progress s0"
    and m: "\<forall>a\<in>set (memlist s0).
        (flush_completed (heap s0 a) \<longrightarrow> flush_in_progress (heap s0 a)) \<and>
        (file_number (heap s0 a) \<noteq> 0 \<longrightarrow> flush_completed (heap s0 a))"
    and o: "scan_outcome LogAndApply fn s0 removed failed st' s'"
  shows "list_inv s'"
proof -
  from o have e: "scan_effect s0 removed failed s'" by (simp add: scan_outcome_def)
  then have ml: "memlist s0 = memlist s' @ removed"
    and fl: "\<forall>a. failed = Some a \<longrightarrow> memlist s' \<noteq> [] \<and> last (memlist s') = a"
    and hp: "\<And>a. heap s' a =
        (if a \<in> set removed then Unref (heap s0 a)
         else if failed = Some a then rolled_back (heap s0 a)
         else heap s0 a)"
    and ls: "list_size s' = list_size s0 - int (length removed)"
    and gs: "commit_in_progress s' = commit_in_progress s0"
    and ns: "num_flush_not_started s' = num_flush_not_started s0 + (if failed = None then 0 else 1)"
    by (simp_all add: scan_effect_def)
  from d ml have d': "distinct (memlist s')" and dis: "set (memlist s') \<inter> set removed = {}"
    by auto
  let ?P = "\<lambda>a. \<not> flush_in_progress (heap s0 a)"
  let ?Q = "\<lambda>a. \<not> flush_in_progress (heap s' a)"
  from o m ml have rfip: "\<forall>a\<in>set removed. flush_in_progress (heap s0 a)"
    by (auto simp: scan_outcome_def)
  then have "filter ?P removed = []" by (simp add: filter_empty_conv)
  with ml have c0: "length (filter ?P (memlist s0)) = length (filter ?P (memlist s'))"
    by simp
  have inl: "\<And>a. a \<in> set (memlist s') \<Longrightarrow> a \<notin> set removed" using dis by auto
  have cnt: "int (length (filter ?Q (memlist s'))) =
      int (length (filter ?P (memlist s'))) + (if failed = None then 0 else 1)"
  proof (cases failed)
    case None
    then have "\<forall>a\<in>set (memlist s'). ?Q a = ?P a" by (simp add: hp inl)
    then have "filter ?Q (memlist s') = filter ?P (memlist s')"
      by (intro filter_cong) auto
    with None show ?thesis by simp
  next
    case (Some f)
    with fl have fin: "f \<in> set (memlist s')" using last_in_set by blast
    from o Some have "flush_completed (heap s0 f)" by (simp add: scan_outcome_def)
    with m ml fin have ffip: "flush_in_progress (heap s0 f)" by auto
    have "length (filter ?Q (memlist s')) = length (filter ?P (memlist s')) + length [f]"
      using d' fin ffip Some by (intro filter_count_more) (auto simp: hp inl)
    with Some show ?thesis by simp
  qed
  have "\<forall>a\<in>set (memlist s').
        (flush_completed (heap s' a) \<longrightarrow> flush_in_progress (heap s' a)) \<and>
        (file_number (heap s' a) \<noteq> 0 \<longrightarrow> flush_completed (heap s' a))"
    using m ml by (auto simp: hp inl)
  moreover have "list_size s' = int (length (memlist s'))"
    using ls sz ml by simp
  moreover have "num_flush_not_started s' = int (length (filter ?Q (memlist s')))"
    using ns n c0 cnt by simp
  ultimately show ?thesis using d' g gs by (simp add: list_inv_def)
qed

lemma list_inv_Install_ok:
  assumes "list_inv s" and "ok flushStatus"
    and "\<forall>m\<in>set mems. m \<in> set (memlist s) \<and> flush_in_progress (heap s m)"
    and "InstallMemtableFlushResults LogAndApply mems flushStatus fn s = Some (Inr (st', s'))"
  shows "list_inv s'"
proof -
  from assms(1) have d: "distinct (memlist s)" and g: "\<not> commit_in_progress s"
    by (simp_all add: list_inv_def)
  from Install_ok_outcome [OF assms(2) g d assms(4)] obtain removed failed where
    o: "scan_outcome LogAndApply fn (marked mems fn s) removed failed st' s'" by blast
  let ?s0 = "marked mems fn s"
  have fip: "\<And>a. flush_in_progress (heap ?s0 a) = flush_in_progress (heap s a)" by simp
  show ?thesis
  proof (rule list_inv_scan_outcome [OF _ _ _ _ _ o])
    show "distinct (memlist ?s0)" using d by simp
    show "list_size ?s0 = int (length (memlist ?s0))" using assms(1) by (simp add: list_inv_def)
    show "num_flush_not_started ?s0 =
       int (length (filter (\<lambda>a. \<not> flush_in_progress (heap ?s0 a)) (memlist ?s0)))"
      using assms(1) unfolding fip by (simp add: list_inv_def)
    show "\<not> commit_in_progress ?s0" using g by simp
    show "\<forall>a\<in>set (memlist ?s0).
        (flush_completed (heap ?s0 a) \<longrightarrow> flush_in_progress (heap ?s0 a)) \<and>
        (file_number (heap ?s0 a) \<noteq> 0 \<longrightarrow> flush_completed (heap ?s0 a))"
      using assms(1,3) by (auto simp: list_inv_def)
  qed
qed

lemma reachable_list_inv: "reachable s \<Longrightarrow> list_inv s"
proof (induction rule: reachable.induct)
  case (empty s)
  then show ?case by (simp add: list_inv_def)
next
  case (add s m s')
  then show ?case by (blast intro: list_inv_Add)
next
  case (pick s ret s' ret')
  then show ?case by (blast intro: list_inv_Pick)
next
  case (install s mems LogAndApply flushStatus fn st' s')
  show ?case
  proof (cases "ok flushStatus")
    case True
    from list_inv_Install_ok [OF install.IH True install.hyps(2,3)] show ?thesis .
  next
    case False
    from install.hyps(2) have "set mems \<subseteq> set (memlist s)" by blast
    from list_inv_Install_failed [OF install.IH False this install.hyps(3)] show ?thesis .
  qed
qed

section \<open>The direction switch of the merging iterator\<close>

lemma key_current:
  "current it = Some c \<Longrightarrow> c < length (children it) \<Longrightarrow> Valid (children it ! c) \<Longrightarrow>
     key it = Inr (key_of (children it ! c))"
  by (simp add: key_def)

lemma resync_child_eq:
  assumes "current it = Some c" and "c < length (children it)" and "Valid (children it ! c)"
    and "comparator it = Some (=)" and "i < length (children it)"
  shows "resync_child i it =
     Inr (it\<lparr>children := (children it)[i := resynced (key_of (children it ! c)) (children it ! i)]\<rparr>)"
  using assms
  by (simp add: resync_child_def key_current resynced_def Let_def)

lemma switch_loop_effect:
  assumes "current it = Some c" and "c < length (children it)" and "Valid (children it ! c)"
    and "comparator it = Some (=)" and "distinct js" and "\<forall>j\<in>set js. j < length (children it)"
  shows "\<exists>it'. switch_loop js it = Inr it' \<and>
      it'\<lparr>children := children it, minHeap := minHeap it\<rparr> = it \<and>
      length (children it') = length (children it) \<and>
      (\<forall>j<length (children it). children it' ! j =
         (if j \<in> set js \<and> j \<noteq> c
          then resynced (key_of (children it ! c)) (children it ! j) else children it ! j)) \<and>
      minHeap it' = minHeap it @ filter (\<lambda>j. Valid (children it' ! j)) js"
  using assms
proof (induction js arbitrary: it)
  case Nil
  then show ?case by simp
next
  case (Cons i rest)
  let ?K = "key_of (children it ! c)"
  define it1 where "it1 = (if i = c then it
     else it\<lparr>children := (children it)[i := resynced ?K (children it ! i)]\<rparr>)"
  define it2 where "it2 =
     (if Valid (children it1 ! i) then it1\<lparr>minHeap := minHeap it1 @ [i]\<rparr> else it1)"
  from Cons.prems have i: "i < length (children it)" and ir: "i \<notin> set rest" by simp_all
  have step: "switch_loop (i # rest) it = switch_loop rest it2"
    using Cons.prems(1) resync_child_eq [OF Cons.prems(1-4) i]
    by (auto simp: it1_def it2_def)
  have c2: "current it2 = Some c" "c < length (children it2)" "comparator it2 = Some (=)"
    using Cons.prems by (auto simp: it1_def it2_def)
  have same: "children it2 ! c = children it ! c" by (auto simp: it1_def it2_def)
  then have v2: "Valid (children it2 ! c)" using Cons.prems(3) by simp
  have len2: "length (children it2) = length (children it)" by (auto simp: it1_def it2_def)
  have d2: "distinct rest" "\<forall>j\<in>set rest. j < length (children it2)"
    using Cons.prems(5,6) len2 by auto
  have frame2: "it2\<lparr>children := children it, minHeap := minHeap it\<rparr> = it"
    by (auto simp: it1_def it2_def)
  have mh2: "minHeap it2 = minHeap it @ (if Valid (children it2 ! i) then [i] else [])"
    by (auto simp: it1_def it2_def)
  have ch2: "\<And>j. j < length (children it) \<Longrightarrow> children it2 ! j =
      (if j = i \<and> j \<noteq> c then resynced ?K (children it ! j) else children it ! j)"
    using i by (auto simp: it1_def it2_def)
  from Cons.IH [OF c2(1,2) v2 c2(3) d2] obtain it' where
    r: "switch_loop rest it2 = Inr it'"
    and fr: "it'\<lparr>children := children it2, minHeap := minHeap it2\<rparr> = it2"
    and len: "length (children it') = length (children it2)"
    and ch: "\<forall>j<length (children it2). children it' ! j =
         (if j \<in> set rest \<and> j \<noteq> c
          then resynced (key_of (children it2 ! c)) (children it2 ! j) else children it2 ! j)"
    and mh: "minHeap it' = minHeap it2 @ filter (\<lambda>j. Valid (children it' ! j)) rest"
    by blast
  have chi: "children it' ! i = children it2 ! i"
    using ch i ir len2 by simp
  have 1: "it'\<lparr>children := children it, minHeap := minHeap it\<rparr> = it"
  proof -
    have "it'\<lparr>children := children it, minHeap := minHeap it\<rparr>
        = (it'\<lparr>children := children it2, minHeap := minHeap it2\<rparr>)
            \<lparr>children := children it, minHeap := minHeap it\<rparr>"
      by simp
    also have "\<dots> = it2\<lparr>children := children it, minHeap := minHeap it\<rparr>"
      by (simp only: fr)
    also have "\<dots> = it" by (rule frame2)
    finally show ?thesis .
  qed
  have 2: "length (children it') = length (children it)" using len len2 by simp
  have 3: "\<forall>j<length (children it). children it' ! j =
         (if j \<in> set (i # rest) \<and> j \<noteq> c
          then resynced ?K (children it ! j) else children it ! j)"
  proof (intro allI impI)
    fix j assume j: "j < length (children it)"
    with ch len2 have "children it' ! j =
         (if j \<in> set rest \<and> j \<noteq> c
          then resynced (key_of (children it2 ! c)) (children it2 ! j) else children it2 ! j)"
      by simp
    also have "\<dots> = (if j \<in> set (i # rest) \<and> j \<noteq> c
          then resynced ?K (children it ! j) else children it ! j)"
    proof (cases "j \<in> set rest \<and> j \<noteq> c")
      case True
      with ir have "j \<noteq> i" by blast
      with ch2 [OF j] have "children it2 ! j = children it ! j" by simp
      with True show ?thesis unfolding same by simp
    next
      case False
      with ch2 [OF j] show ?thesis by auto
    qed
    finally show "children it' ! j = (if j \<in> set (i # rest) \<and> j \<noteq> c
          then resynced ?K (children it ! j) else children it ! j)" .
  qed
  have 4: "minHeap it' = minHeap it @ filter (\<lambda>j. Valid (children it' ! j)) (i # rest)"
    unfolding mh mh2 using chi by simp
  from step r 1 2 3 4 show ?case by auto
qed

lemma resynced_past:
  assumes "sorted_wrt (<) (entries ch)" and "Valid (resynced k ch)"
  shows "k < key_of (resynced k ch)"
proof -
  let ?n = "length (takeWhile (\<lambda>x. x < k) (entries ch))"
  show ?thesis
  proof (cases "Valid (Seek k ch) \<and> key_of (Seek k ch) = k")
    case True
    then have r: "resynced k ch = Next (Seek k ch)" by (simp add: resynced_def)
    with assms(2) have "Suc ?n < length (entries ch)"
      by (simp add: Valid_def Next_def Seek_def)
    with assms(1) have "entries ch ! ?n < entries ch ! Suc ?n"
      by (simp add: sorted_wrt_nth_less)
    moreover from True have "entries ch ! ?n = k"
      by (simp add: key_of_def Seek_def)
    ultimately show ?thesis by (simp add: r key_of_def Next_def Seek_def)
  next
    case False
    then have r: "resynced k ch = Seek k ch" by (auto simp: resynced_def)
    with assms(2) have "?n < length (entries ch)" by (simp add: Valid_def Seek_def)
    then have "\<not> entries ch ! ?n < k" by (rule nth_length_takeWhile)
    moreover from False assms(2) r have "entries ch ! ?n \<noteq> k"
      by (simp add: key_of_def Seek_def)
    ultimately show ?thesis by (simp add: r key_of_def Seek_def)
  qed
qed

lemma one_queued_added: "Add 1 idle_list = Inr one_queued"
  by (simp add: Add_def idle_list_def empty_MemTableList_def one_queued_def Let_def)

section \<open>Auxiliary facts and the example states\<close>

lemmas run_simps = InstallMemtableFlushResults_def Let_def commit_scan.simps commit_batch.simps
  commit_one_def rollback_one_def accept_edits_def Unref_def returned_state_def returned_status_def

lemma suffix_removed_order:
  assumes "distinct xs" and "xs = ys @ rs" and "i < j" and "j < length xs" and "xs ! i \<notin> set ys"
  shows "xs ! j \<notin> set ys"
proof -
  have "\<not> i < length ys"
  proof
    assume "i < length ys"
    then have "xs ! i \<in> set ys" by (simp add: assms(2) nth_append)
    with assms(5) show False by simp
  qed
  with assms(3) have "length ys \<le> j" by simp
  with assms(2,4) have "xs ! j \<in> set rs"
    by (simp add: nth_append)
  with assms(1,2) show ?thesis by auto
qed

lemma subseq_subset: "subseq xs ys \<Longrightarrow> set xs \<subseteq> set ys"
  by (auto elim: list_emb_set)

lemma subseq_filter_unique:
  "subseq xs ys \<Longrightarrow> distinct ys \<Longrightarrow> set xs = {a \<in> set ys. P a} \<Longrightarrow> xs = filter P ys"
proof (induction ys arbitrary: xs)
  case Nil
  then show ?case by simp
next
  case (Cons y ys)
  show ?case
  proof (cases xs)
    case Nil
    with Cons.prems(3) have "\<forall>a\<in>set (y # ys). \<not> P a" by auto
    then have "filter P (y # ys) = []" by (simp only: filter_empty_conv)
    with Nil show ?thesis by simp
  next
    case (Cons x xs')
    show ?thesis
    proof (cases "x = y")
      case True
      with Cons Cons.prems(1) have sub: "subseq xs' ys" by simp
      then have "set xs' \<subseteq> set ys" by (rule subseq_subset)
      with Cons.prems(2) have "y \<notin> set xs'" by auto
      with Cons.prems(2,3) Cons True have "set xs' = {a \<in> set ys. P a}" and "P y"
        by auto
      with Cons.IH [OF sub] Cons.prems(2) Cons True show ?thesis by simp
    next
      case False
      with Cons Cons.prems(1) have sub: "subseq xs ys" by simp
      then have ss: "set xs \<subseteq> set ys" by (rule subseq_subset)
      with Cons.prems(2,3) have "\<not> P y" and "set xs = {a \<in> set ys. P a}" by auto
      with Cons.IH [OF sub] Cons.prems(2) show ?thesis by simp
    qed
  qed
qed

lemma pick_loop_returns:
  "\<forall>a\<in>set it. \<not> flush_in_progress (heap s a) \<longrightarrow> \<not> flush_completed (heap s a) \<Longrightarrow>
     \<exists>r. pick_loop it s ret = Inr r"
proof (induction it arbitrary: s ret)
  case Nil
  then show ?case by simp
next
  case (Cons m it)
  show ?case
  proof (cases "flush_in_progress (heap s m)")
    case True
    with Cons.IH [of s ret] Cons.prems show ?thesis by simp
  next
    case False
    let ?n = "num_flush_not_started s"
    let ?s3 = "s\<lparr>num_flush_not_started := ?n - 1,
        imm_flush_needed := (if ?n - 1 = 0 then False else imm_flush_needed s),
        heap := (heap s)(m := (heap s m)\<lparr>flush_in_progress := True\<rparr>)\<rparr>"
    from Cons.prems have "\<forall>a\<in>set it. \<not> flush_in_progress (heap ?s3 a) \<longrightarrow>
        \<not> flush_completed (heap ?s3 a)" by auto
    from Cons.IH [OF this, of "ret @ [m]"] obtain r where
      "pick_loop it ?s3 (ret @ [m]) = Inr r" by blast
    moreover from False Cons.prems have "\<not> flush_completed (heap s m)" by simp
    ultimately show ?thesis using False by (auto simp: Let_def)
  qed
qed

lemma idle_list_reachable: "reachable idle_list"
  by (rule reachable.empty) (simp_all add: idle_list_def empty_MemTableList_def)

lemma one_queued_reachable: "reachable one_queued"
  by (rule reachable.add [OF idle_list_reachable _ _ _ _ one_queued_added])
     (simp_all add: idle_list_def empty_MemTableList_def fresh_memtables_def new_MemTable_def)

lemma three_selected_reachable: "reachable three_selected"
proof -
  let ?s2 = "one_queued\<lparr>list_size := 2, memlist := [2, 1], num_flush_not_started := 2\<rparr>"
  let ?s3 = "one_queued\<lparr>list_size := 3, memlist := [3, 2, 1], num_flush_not_started := 3\<rparr>"
  have "Add 2 one_queued = Inr ?s2"
    by (simp add: Add_def one_queued_def Let_def)
  from reachable.add [OF one_queued_reachable _ _ _ _ this]
  have r2: "reachable ?s2"
    by (simp add: one_queued_def fresh_memtables_def new_MemTable_def)
  have "Add 3 ?s2 = Inr ?s3"
    by (simp add: Add_def one_queued_def Let_def)
  from reachable.add [OF r2 _ _ _ _ this]
  have r3: "reachable ?s3"
    by (simp add: one_queued_def fresh_memtables_def new_MemTable_def)
  have "PickMemtablesToFlush ?s3 [] = Inr (three_selected, [1, 2, 3])"
    by (simp add: PickMemtablesToFlush_def one_queued_def three_selected_def
        fresh_memtables_def new_MemTable_def Let_def fun_eq_iff)
  from reachable.pick [OF r3 this] show ?thesis .
qed

lemma three_flushed_reachable: "reachable three_flushed"
proof -
  have "InstallMemtableFlushResults (accept_edits 3) [2, 3] OK 11 three_selected
      = Some (Inr (OK, three_flushed))"
    by (simp add: run_simps three_flushed_def three_selected_def fun_eq_iff)
  from reachable.install [OF three_selected_reachable _ this] show ?thesis
    by (simp add: three_selected_def)
qed

lemma Install_not_ok_outcome:
  assumes "ok flushStatus" and "\<not> commit_in_progress s" and "distinct (memlist s)"
    and "InstallMemtableFlushResults LogAndApply mems flushStatus fn s = Some (Inr (st', s'))"
    and "\<not> ok st'"
  shows "\<exists>removed. scan_outcome LogAndApply fn (marked mems fn s) removed
      (Some (last (memlist s'))) st' s'"
proof -
  from Install_ok_outcome [OF assms(1-4)] obtain removed failed where
    o: "scan_outcome LogAndApply fn (marked mems fn s) removed failed st' s'" by blast
  with assms(5) obtain m where f: "failed = Some m"
    by (cases failed) (auto simp: scan_outcome_def)
  with o have "last (memlist s') = m" by (simp add: scan_outcome_def scan_effect_def)
  with o f show ?thesis by blast
qed

lemma ClearHeaps_eq:
  "ClearHeaps it = it\<lparr>minHeap := [], maxHeap := map_option (\<lambda>_. []) (maxHeap it)\<rparr>"
  by (cases "maxHeap it") (simp_all add: ClearHeaps_def Let_def)


text \<open>
  When the memtable to commit carries a file number and the file number of the call is
  not 0, no assertion of the \<open>do ... while\<close> loop fails: the loop returns.
\<close>

lemma commit_batch_ok_returns_normally:
  assumes "distinct (memlist s)" and "memlist s \<noteq> []" and "m = last (memlist s)"
    and "file_number (heap s m) \<noteq> 0" and "fn \<noteq> 0"
  shows "\<exists>st' s'. commit_batch m OK fn s = Some (Inr (st', s'))"
  using assms
proof (induction "length (memlist s)" arbitrary: s m rule: less_induct)
  case less
  let ?s1 = "s\<lparr>memlist := butlast (memlist s),
      pending_outputs := pending_outputs s - {file_number (heap s m)},
      heap := (heap s)(m := Unref (heap s m)),
      list_size := list_size s - 1\<rparr>"
  let ?m1 = "last (memlist ?s1)"
  note one = commit_one_last [OF less.prems(1-3)]
  have unfold: "commit_batch m OK fn s =
      (if memlist ?s1 \<noteq> [] \<and> file_number (heap ?s1 ?m1) = fn
       then commit_batch ?m1 OK fn ?s1 else Some (Inr (OK, ?s1)))"
    using one less.prems(4) by (subst commit_batch_ok) simp
  show ?case
  proof (cases "memlist ?s1 \<noteq> [] \<and> file_number (heap ?s1 ?m1) = fn")
    case c: False
    show ?thesis unfolding unfold if_not_P [OF c] by blast
  next
    case c: True
    from less.prems(1) have d1: "distinct (memlist ?s1)"
      by (simp add: distinct_butlast)
    from less.prems(2) have len: "length (memlist ?s1) < length (memlist s)"
      by simp
    from c have ne1: "memlist ?s1 \<noteq> []" by blast
    from c less.prems(5) have f1: "file_number (heap ?s1 ?m1) \<noteq> 0" by blast
    from less.hyps [OF len d1 ne1 refl f1 less.prems(5)]
    show ?thesis unfolding unfold if_P [OF c] .
  qed
qed

text \<open>
  The commit scan returns, with a status and a state, when the file number of the call
  is not 0 and every completed member carries a file number.
\<close>

lemma commit_scan_returns_normally:
  assumes "distinct (memlist s)" and "fn \<noteq> 0"
    and "\<forall>a\<in>set (memlist s). flush_completed (heap s a) \<longrightarrow> file_number (heap s a) \<noteq> 0"
  shows "\<exists>st' s'. commit_scan LogAndApply OK fn s = Some (Inr (st', s'))"
  using assms
proof (induction "length (memlist s)" arbitrary: s rule: less_induct)
  case less
  show ?case
  proof (cases "memlist s \<noteq> [] \<and> flush_completed (heap s (last (memlist s)))")
    case False
    then have "commit_scan LogAndApply OK fn s = Some (Inr (OK, s))"
      using commit_scan_empty commit_scan_incomplete by blast
    then show ?thesis by blast
  next
    case True
    let ?m = "last (memlist s)"
    obtain st1 v1 where la: "LogAndApply (vset s) (edit (heap s ?m)) = (st1, v1)"
      by (cases "LogAndApply (vset s) (edit (heap s ?m))")
    let ?sv = "s\<lparr>vset := v1\<rparr>"
    from True have ne: "memlist s \<noteq> []" and comp: "flush_completed (heap s ?m)"
      by blast+
    note step = commit_scan_step [of s LogAndApply st1 v1 fn, OF ne comp la]
    show ?thesis
    proof (cases "ok st1")
      case False
      have "commit_batch ?m st1 fn ?sv = Some (Inr (rollback_one ?m ?sv))"
        using False ne less.prems(2) by (subst commit_batch_fail_last) simp_all
      with step have "commit_scan LogAndApply OK fn s =
          commit_scan LogAndApply (fst (rollback_one ?m ?sv)) fn (snd (rollback_one ?m ?sv))"
        by (simp add: case_prod_beta)
      moreover have "\<not> ok (fst (rollback_one ?m ?sv))"
        by (simp add: rollback_one_eq)
      note commit_scan_not_ok [OF this, of LogAndApply fn "snd (rollback_one ?m ?sv)"]
      ultimately show ?thesis by simp
    next
      case ok1: True
      then have st1: "st1 = OK" by (simp add: ok_iff)
      have dv: "distinct (memlist ?sv)" "memlist ?sv \<noteq> []" "?m = last (memlist ?sv)"
        using less.prems(1) ne by simp_all
      from ne have "?m \<in> set (memlist s)" by simp
      with less.prems(3) comp have fm: "file_number (heap ?sv ?m) \<noteq> 0" by simp
      from commit_batch_ok_returns_normally [OF dv fm less.prems(2)] obtain st2 s2 where
        b': "commit_batch ?m OK fn ?sv = Some (Inr (st2, s2))" by blast
      from commit_batch_ok_effect [OF dv b'] obtain removed1 where
        st2: "st2 = OK"
        and e1: "scan_effect ?sv removed1 None s2"
        and rne: "removed1 \<noteq> []"
        by blast
      from e1 have m1: "memlist s = memlist s2 @ removed1"
        and hp: "\<And>a. heap s2 a = (if a \<in> set removed1 then Unref (heap s a) else heap s a)"
        by (simp_all add: scan_effect_def)
      from m1 rne have len: "length (memlist s2) < length (memlist s)" by simp
      from m1 less.prems(1) have d2: "distinct (memlist s2)" by simp
      have h2: "\<forall>a\<in>set (memlist s2). flush_completed (heap s2 a) \<longrightarrow> file_number (heap s2 a) \<noteq> 0"
      proof
        fix a assume "a \<in> set (memlist s2)"
        with m1 have "a \<in> set (memlist s)" by simp
        with less.prems(3) show "flush_completed (heap s2 a) \<longrightarrow> file_number (heap s2 a) \<noteq> 0"
          by (simp add: hp)
      qed
      from less.hyps [OF len d2 less.prems(2) h2] obtain st3 s3 where
        "commit_scan LogAndApply OK fn s2 = Some (Inr (st3, s3))" by blast
      with step b' st1 st2 show ?thesis by simp
    qed
  qed
qed

text \<open>
  A call with an ok flush status returns, with a status and a state, when its file
  number is not 0, the batch passes the assertion of the marking loop (only the first
  memtable may carry edits) and every completed member carries a file number.
\<close>

lemma Install_returns_normally:
  assumes "ok flushStatus" and "distinct (memlist s)" and "fn \<noteq> 0"
    and "\<forall>m\<in>set (tl mems). edit (heap s m) = []"
    and "\<forall>a\<in>set (memlist s). flush_completed (heap s a) \<longrightarrow> file_number (heap s a) \<noteq> 0"
  shows "\<exists>st' s'. InstallMemtableFlushResults LogAndApply mems flushStatus fn s
      = Some (Inr (st', s'))"
proof -
  from assms(4) have "\<forall>m\<in>set (if True then tl mems else mems). edit (heap s m) = []"
    by simp
  from mark_flush_completed_returns [OF this] obtain s0 where
    m: "mark_flush_completed mems True fn s = Inr s0" by blast
  then have s0: "s0 = marked mems fn s" by (rule mark_flush_completed_marked)
  let ?g = "s0\<lparr>commit_in_progress := True\<rparr>"
  from assms(2) s0 have d: "distinct (memlist ?g)" by simp
  have h: "\<forall>a\<in>set (memlist ?g). flush_completed (heap ?g a) \<longrightarrow> file_number (heap ?g a) \<noteq> 0"
    using assms(3,5) by (simp add: s0)
  from commit_scan_returns_normally [OF d assms(3) h] obtain st' s2 where
    "commit_scan LogAndApply OK fn ?g = Some (Inr (st', s2))" by blast
  with assms(1) m show ?thesis
    by (simp add: InstallMemtableFlushResults_def)
qed

text \<open>
  A call with an ok flush status and the guard free whose oldest member has not
  completed flushing, also after the marks of the batch: the scan stops at once. The
  call returns ok and nothing but the marks of the batch has changed.
\<close>

lemma Install_stops_at_incomplete:
  assumes "ok flushStatus" and "\<not> commit_in_progress s"
    and "\<forall>m\<in>set (tl mems). edit (heap s m) = []"
    and "memlist s \<noteq> []"
    and "\<not> flush_completed (heap s (last (memlist s)))"
    and "last (memlist s) \<notin> set mems"
  shows "InstallMemtableFlushResults LogAndApply mems flushStatus fn s
      = Some (Inr (OK, marked mems fn s))"
proof -
  from assms(3) have "\<forall>m\<in>set (if True then tl mems else mems). edit (heap s m) = []"
    by simp
  from mark_flush_completed_returns [OF this] obtain s0 where
    m: "mark_flush_completed mems True fn s = Inr s0" by blast
  then have s0: "s0 = marked mems fn s" by (rule mark_flush_completed_marked)
  let ?g = "s0\<lparr>commit_in_progress := True\<rparr>"
  have ne: "memlist ?g \<noteq> []" and nc: "\<not> flush_completed (heap ?g (last (memlist ?g)))"
    using assms(4-6) by (simp_all add: s0)
  have sc: "commit_scan LogAndApply OK fn ?g = Some (Inr (OK, ?g))"
    by (rule commit_scan_incomplete [OF ne nc])
  from assms(2) have "commit_in_progress s0 = False" by (simp add: s0)
  then have "?g\<lparr>commit_in_progress := False\<rparr> = s0" by (cases s0) simp
  with assms(1,2) m sc s0 show ?thesis
    by (simp add: InstallMemtableFlushResults_def)
qed

text \<open>
  A failed apply in the commit scan, under a file number other than 0: the scan started
  in a state whose oldest member \<open>m\<close> is completed gives the edit of \<open>m\<close> to
  \<open>LogAndApply\<close>; when that fails the scan rolls \<open>m\<close> back, goes no further and ends
  with the IO error, whatever the status of \<open>LogAndApply\<close> was.
\<close>

lemma commit_scan_failed_apply:
  assumes "memlist s \<noteq> []" and "flush_completed (heap s (last (memlist s)))"
    and "\<not> ok (fst (LogAndApply (vset s) (edit (heap s (last (memlist s))))))"
    and "fn \<noteq> 0"
  shows "commit_scan LogAndApply OK fn s =
     Some (Inr (IOError ''Unable to commit flushed memtable'',
       s\<lparr>vset := snd (LogAndApply (vset s) (edit (heap s (last (memlist s))))),
         heap := (heap s)(last (memlist s) := rolled_back (heap s (last (memlist s)))),
         num_flush_not_started := num_flush_not_started s + 1,
         pending_outputs := pending_outputs s - {file_number (heap s (last (memlist s)))},
         imm_flush_needed := True\<rparr>))"
proof -
  let ?m = "last (memlist s)"
  obtain st1 v1 where la: "LogAndApply (vset s) (edit (heap s ?m)) = (st1, v1)"
    by (cases "LogAndApply (vset s) (edit (heap s ?m))")
  let ?sv = "s\<lparr>vset := v1\<rparr>"
  from la assms(3) have nok: "\<not> ok st1" by simp
  note step = commit_scan_step [of s LogAndApply st1 v1 fn, OF assms(1,2) la]
  have "commit_batch ?m st1 fn ?sv = Some (Inr (rollback_one ?m ?sv))"
    using nok assms(1,4) by (subst commit_batch_fail_last) simp_all
  with step have "commit_scan LogAndApply OK fn s =
      commit_scan LogAndApply (fst (rollback_one ?m ?sv)) fn (snd (rollback_one ?m ?sv))"
    by (simp add: case_prod_beta)
  moreover have "\<not> ok (fst (rollback_one ?m ?sv))"
    by (simp add: rollback_one_eq)
  note commit_scan_not_ok [OF this, of LogAndApply fn "snd (rollback_one ?m ?sv)"]
  ultimately have "commit_scan LogAndApply OK fn s = Some (Inr (rollback_one ?m ?sv))"
    by simp
  with la show ?thesis by (simp add: rollback_one_eq)
qed

text \<open>
  The same for the whole call, when the apply of the oldest member fails: with an ok
  flush status, the guard free, a batch that passes the assertion of the marking loop
  and a file number other than 0, the call returns the IO error; the oldest member is
  rolled back, its file number is erased from \<open>pending_outputs\<close>,
  \<open>num_flush_not_started\<close> has grown by one, the signal is set, nothing is removed from
  the list, no other memtable has changed beyond the marks of the batch, and the guard
  is free again.
\<close>

lemma Install_failed_apply_rolls_back:
  assumes "ok flushStatus" and "\<not> commit_in_progress s"
    and "\<forall>m\<in>set (tl mems). edit (heap s m) = []"
    and "memlist s \<noteq> []"
    and "flush_completed (heap s (last (memlist s))) \<or> last (memlist s) \<in> set mems"
    and "\<not> ok (fst (LogAndApply (vset s) (edit (heap s (last (memlist s))))))"
    and "fn \<noteq> 0"
  shows "\<exists>s'. InstallMemtableFlushResults LogAndApply mems flushStatus fn s
        = Some (Inr (IOError ''Unable to commit flushed memtable'', s')) \<and>
      memlist s' = memlist s \<and> list_size s' = list_size s \<and>
      heap s' (last (memlist s)) = rolled_back (heap s (last (memlist s))) \<and>
      (\<forall>a. a \<noteq> last (memlist s) \<longrightarrow> heap s' a = heap (marked mems fn s) a) \<and>
      pending_outputs s' = pending_outputs s
        - {file_number (heap (marked mems fn s) (last (memlist s)))} \<and>
      num_flush_not_started s' = num_flush_not_started s + 1 \<and>
      imm_flush_needed s' \<and>
      vset s' = snd (LogAndApply (vset s) (edit (heap s (last (memlist s))))) \<and>
      \<not> commit_in_progress s'"
proof -
  let ?m = "last (memlist s)"
  from assms(3) have "\<forall>m\<in>set (if True then tl mems else mems). edit (heap s m) = []"
    by simp
  from mark_flush_completed_returns [OF this] obtain s0 where
    m: "mark_flush_completed mems True fn s = Inr s0" by blast
  then have s0: "s0 = marked mems fn s" by (rule mark_flush_completed_marked)
  let ?g = "s0\<lparr>commit_in_progress := True\<rparr>"
  have ne: "memlist ?g \<noteq> []" and comp: "flush_completed (heap ?g (last (memlist ?g)))"
    using assms(4,5) by (auto simp: s0)
  have eq: "edit (heap ?g (last (memlist ?g))) = edit (heap s ?m)" "vset ?g = vset s"
    "last (memlist ?g) = ?m"
    by (simp_all add: s0)
  with assms(6) have nok: "\<not> ok (fst (LogAndApply (vset ?g) (edit (heap ?g (last (memlist ?g))))))"
    by simp
  note sc = commit_scan_failed_apply [of ?g LogAndApply fn, OF ne comp nok assms(7)]
  let ?s2 = "?g\<lparr>vset := snd (LogAndApply (vset ?g) (edit (heap ?g (last (memlist ?g))))),
         heap := (heap ?g)(last (memlist ?g) := rolled_back (heap ?g (last (memlist ?g)))),
         num_flush_not_started := num_flush_not_started ?g + 1,
         pending_outputs := pending_outputs ?g - {file_number (heap ?g (last (memlist ?g)))},
         imm_flush_needed := True\<rparr>"
  from assms(1,2) m sc s0 have r: "InstallMemtableFlushResults LogAndApply mems flushStatus fn s
      = Some (Inr (IOError ''Unable to commit flushed memtable'',
          ?s2\<lparr>commit_in_progress := False\<rparr>))"
    by (simp add: InstallMemtableFlushResults_def)
  have rb: "rolled_back (heap (marked mems fn s) ?m) = rolled_back (heap s ?m)"
    by (simp add: rolled_back_def)
  have "memlist (?s2\<lparr>commit_in_progress := False\<rparr>) = memlist s"
    "list_size (?s2\<lparr>commit_in_progress := False\<rparr>) = list_size s"
    "heap (?s2\<lparr>commit_in_progress := False\<rparr>) ?m = rolled_back (heap s ?m)"
    "\<forall>a. a \<noteq> ?m \<longrightarrow> heap (?s2\<lparr>commit_in_progress := False\<rparr>) a = heap (marked mems fn s) a"
    "pending_outputs (?s2\<lparr>commit_in_progress := False\<rparr>) = pending_outputs s
        - {file_number (heap (marked mems fn s) ?m)}"
    "num_flush_not_started (?s2\<lparr>commit_in_progress := False\<rparr>) = num_flush_not_started s + 1"
    "imm_flush_needed (?s2\<lparr>commit_in_progress := False\<rparr>)"
    "vset (?s2\<lparr>commit_in_progress := False\<rparr>) = snd (LogAndApply (vset s) (edit (heap s ?m)))"
    "\<not> commit_in_progress (?s2\<lparr>commit_in_progress := False\<rparr>)"
    using rb by (simp_all add: s0)
  with r show ?thesis by blast
qed

text \<open>
  In every state reached from an empty list by calls that return, where \<open>Add\<close> is given
  a new memtable and \<open>InstallMemtableFlushResults\<close> is given members of the list that
  are flush_in_progress (memtables that \<open>PickMemtablesToFlush\<close> handed out), with either
  flush status and any behaviour of \<open>LogAndApply\<close>: \<open>0 \<le> num_flush_not_started \<le> size\<close>,
  and the size is the number of members.
\<close>

lemma reachable_count_bounds:
  assumes "reachable s"
  shows "0 \<le> num_flush_not_started s \<and> num_flush_not_started s \<le> list_size s \<and>
     list_size s = int (length (memlist s))"
  using reachable_list_inv [OF assms] by (rule list_inv_bounds)

section \<open>The claims\<close>

text \<open>
  C1. The commit scan commits in creation order and stops at the first member that has
  not completed flushing. Take a list in which every memtable occurs once and a file
  number is only carried by memtables that completed flushing (both hold in every
  reachable state, see \<open>reachable_list_inv\<close>).

  First, whatever the arguments of \<open>InstallMemtableFlushResults\<close>, when the call
  returns the members it removed are the oldest ones: the list before the call is the
  list after the call followed by the removed members. Every removed member had
  completed flushing (before the call, or as a member of this batch). So when a newer
  memtable (smaller index) is gone after the call, every older one (larger index) is
  gone too. When the scan ran and ended with an ok status on a list that is not empty,
  it stopped at an oldest member that has not completed flushing.

  Second, the scan stops at an oldest member that has not completed flushing: with an ok
  flush status and the guard free, a call whose batch passes the assertion of the
  marking loop and does not hold the oldest member, on a list whose oldest member has
  not completed flushing, returns ok; the state it leaves is the state after the marks
  of the batch, so no member was removed and \<open>LogAndApply\<close> was not called.

  Third, the same for the loop of the scan in any state it comes to: when the oldest
  member has not completed flushing, the loop ends at once with the status and the
  state it has.

  Fourth, when \<open>LogAndApply\<close> accepts every edit, the file number of the call is not 0
  and the completed members carry a file number, the call returns ok and has removed
  exactly the longest run of completed memtables at the old end of the list: what is
  left starts, from the oldest, at the first member that has not completed flushing.
\<close>

theorem commit_order_preserved:
  assumes "distinct (memlist s)"
    and "\<forall>a\<in>set (memlist s). file_number (heap s a) \<noteq> 0 \<longrightarrow> flush_completed (heap s a)"
  shows "(\<forall>st' s'.
       InstallMemtableFlushResults LogAndApply mems flushStatus fn s = Some (Inr (st', s')) \<longrightarrow>
       (\<exists>removed. memlist s = memlist s' @ removed \<and>
          (\<forall>a\<in>set removed. flush_completed (heap s a) \<or> a \<in> set mems) \<and>
          (\<forall>i j. i < j \<and> j < length (memlist s) \<and> memlist s ! i \<notin> set (memlist s')
             \<longrightarrow> memlist s ! j \<notin> set (memlist s')) \<and>
          (ok flushStatus \<and> \<not> commit_in_progress s \<and> ok st' \<and> memlist s' \<noteq> []
             \<longrightarrow> \<not> flush_completed (heap s' (last (memlist s')))))) \<and>
     (ok flushStatus \<and> \<not> commit_in_progress s \<and>
      (\<forall>m\<in>set (tl mems). edit (heap s m) = []) \<and>
      memlist s \<noteq> [] \<and> \<not> flush_completed (heap s (last (memlist s))) \<and>
      last (memlist s) \<notin> set mems \<longrightarrow>
        InstallMemtableFlushResults LogAndApply mems flushStatus fn s
          = Some (Inr (OK, marked mems fn s))) \<and>
     (\<forall>st t. memlist t \<noteq> [] \<and> \<not> flush_completed (heap t (last (memlist t))) \<longrightarrow>
        commit_scan LogAndApply st fn t = Some (Inr (st, t))) \<and>
     (ok flushStatus \<and> \<not> commit_in_progress s \<and> fn \<noteq> 0 \<and>
      (\<forall>m\<in>set (tl mems). edit (heap s m) = []) \<and>
      (\<forall>a\<in>set (memlist s). flush_completed (heap s a) \<longrightarrow> file_number (heap s a) \<noteq> 0) \<and>
      (\<forall>v e. ok (fst (LogAndApply v e))) \<longrightarrow>
        (\<exists>s'. InstallMemtableFlushResults LogAndApply mems flushStatus fn s
            = Some (Inr (OK, s')) \<and>
          memlist s' = rev (dropWhile (\<lambda>a. flush_completed (heap s a) \<or> a \<in> set mems)
            (rev (memlist s)))))"
proof -
  have removed_completed: "\<forall>a\<in>set removed. flush_completed (heap s a) \<or> a \<in> set mems"
    if o: "scan_outcome LogAndApply fn (marked mems fn s) removed failed st' s'"
    for removed failed st' s'
  proof
    from o have ml: "memlist s = memlist s' @ removed"
      by (simp add: scan_outcome_def scan_effect_def)
    fix a assume a: "a \<in> set removed"
    with o have "file_number (heap (marked mems fn s) a) \<noteq> 0"
      and "flush_completed (heap (marked mems fn s) a) \<or> file_number (heap (marked mems fn s) a) = fn"
      by (simp_all add: scan_outcome_def)
    moreover from a ml have "a \<in> set (memlist s)" by simp
    ultimately show "flush_completed (heap s a) \<or> a \<in> set mems"
      using assms(2) by (auto split: if_splits)
  qed
  have A: "\<forall>st' s'.
       InstallMemtableFlushResults LogAndApply mems flushStatus fn s = Some (Inr (st', s')) \<longrightarrow>
       (\<exists>removed. memlist s = memlist s' @ removed \<and>
          (\<forall>a\<in>set removed. flush_completed (heap s a) \<or> a \<in> set mems) \<and>
          (\<forall>i j. i < j \<and> j < length (memlist s) \<and> memlist s ! i \<notin> set (memlist s')
             \<longrightarrow> memlist s ! j \<notin> set (memlist s')) \<and>
          (ok flushStatus \<and> \<not> commit_in_progress s \<and> ok st' \<and> memlist s' \<noteq> []
             \<longrightarrow> \<not> flush_completed (heap s' (last (memlist s')))))"
  proof (intro allI impI)
    fix st' s'
    assume ret: "InstallMemtableFlushResults LogAndApply mems flushStatus fn s
        = Some (Inr (st', s'))"
    have main: "\<exists>removed. memlist s = memlist s' @ removed \<and>
        (\<forall>a\<in>set removed. flush_completed (heap s a) \<or> a \<in> set mems) \<and>
        (ok flushStatus \<and> \<not> commit_in_progress s \<and> ok st' \<and> memlist s' \<noteq> []
           \<longrightarrow> \<not> flush_completed (heap s' (last (memlist s'))))"
    proof (cases "ok flushStatus \<and> \<not> commit_in_progress s")
      case False
      have "memlist s' = memlist s"
      proof (cases "ok flushStatus")
        case nok: False
        with ret have "reset_failed_flush mems fn s = Inr s'"
          by (auto simp: InstallMemtableFlushResults_def split: sum.splits)
        from reset_failed_flush_frame [OF this] show ?thesis by simp
      next
        case True
        with False have g: "commit_in_progress s" by simp
        from True ret obtain s0 where m: "mark_flush_completed mems True fn s = Inr s0"
          by (auto simp: InstallMemtableFlushResults_def split: sum.splits)
        then have s0: "s0 = marked mems fn s" by (rule mark_flush_completed_marked)
        with True g m ret have "s' = marked mems fn s"
          by (simp add: InstallMemtableFlushResults_def)
        then show ?thesis by simp
      qed
      with False show ?thesis by auto
    next
      case True
      then have okf: "ok flushStatus" and g: "\<not> commit_in_progress s" by simp_all
      from Install_ok_outcome [OF okf g assms(1) ret] obtain removed failed where
        o: "scan_outcome LogAndApply fn (marked mems fn s) removed failed st' s'" by blast
      then have e: "scan_effect (marked mems fn s) removed failed s'"
        by (simp add: scan_outcome_def)
      then have ml: "memlist s = memlist s' @ removed"
        and hp: "\<And>a. heap s' a =
          (if a \<in> set removed then Unref (heap (marked mems fn s) a)
           else if failed = Some a then rolled_back (heap (marked mems fn s) a)
           else heap (marked mems fn s) a)"
        by (simp_all add: scan_effect_def)
      note removed_completed [OF o]
      moreover have "ok st' \<and> memlist s' \<noteq> [] \<longrightarrow> \<not> flush_completed (heap s' (last (memlist s')))"
      proof
        assume a: "ok st' \<and> memlist s' \<noteq> []"
        with o have fn: "failed = None" by (cases failed) (auto simp: scan_outcome_def)
        with o a have nc: "\<not> flush_completed (heap (marked mems fn s) (last (memlist s')))"
          by (simp add: scan_outcome_def)
        from a have "last (memlist s') \<in> set (memlist s')" by simp
        with assms(1) ml have "last (memlist s') \<notin> set removed" by auto
        with nc fn show "\<not> flush_completed (heap s' (last (memlist s')))"
          by (simp add: hp)
      qed
      ultimately show ?thesis using ml by blast
    qed
    then obtain removed where ml: "memlist s = memlist s' @ removed"
      and rest: "\<forall>a\<in>set removed. flush_completed (heap s a) \<or> a \<in> set mems"
        "ok flushStatus \<and> \<not> commit_in_progress s \<and> ok st' \<and> memlist s' \<noteq> []
           \<longrightarrow> \<not> flush_completed (heap s' (last (memlist s')))"
      by blast
    have "\<forall>i j. i < j \<and> j < length (memlist s) \<and> memlist s ! i \<notin> set (memlist s')
           \<longrightarrow> memlist s ! j \<notin> set (memlist s')"
      using suffix_removed_order [OF assms(1) ml] by blast
    with ml rest show "\<exists>removed. memlist s = memlist s' @ removed \<and>
          (\<forall>a\<in>set removed. flush_completed (heap s a) \<or> a \<in> set mems) \<and>
          (\<forall>i j. i < j \<and> j < length (memlist s) \<and> memlist s ! i \<notin> set (memlist s')
             \<longrightarrow> memlist s ! j \<notin> set (memlist s')) \<and>
          (ok flushStatus \<and> \<not> commit_in_progress s \<and> ok st' \<and> memlist s' \<noteq> []
             \<longrightarrow> \<not> flush_completed (heap s' (last (memlist s'))))"
      by blast
  qed
  have B: "ok flushStatus \<and> \<not> commit_in_progress s \<and>
      (\<forall>m\<in>set (tl mems). edit (heap s m) = []) \<and>
      memlist s \<noteq> [] \<and> \<not> flush_completed (heap s (last (memlist s))) \<and>
      last (memlist s) \<notin> set mems \<longrightarrow>
        InstallMemtableFlushResults LogAndApply mems flushStatus fn s
          = Some (Inr (OK, marked mems fn s))"
    using Install_stops_at_incomplete [of flushStatus s mems LogAndApply fn] by blast
  have C: "\<forall>st t. memlist t \<noteq> [] \<and> \<not> flush_completed (heap t (last (memlist t))) \<longrightarrow>
        commit_scan LogAndApply st fn t = Some (Inr (st, t))"
    using commit_scan_incomplete by blast
  have D: "ok flushStatus \<and> \<not> commit_in_progress s \<and> fn \<noteq> 0 \<and>
      (\<forall>m\<in>set (tl mems). edit (heap s m) = []) \<and>
      (\<forall>a\<in>set (memlist s). flush_completed (heap s a) \<longrightarrow> file_number (heap s a) \<noteq> 0) \<and>
      (\<forall>v e. ok (fst (LogAndApply v e))) \<longrightarrow>
        (\<exists>s'. InstallMemtableFlushResults LogAndApply mems flushStatus fn s
            = Some (Inr (OK, s')) \<and>
          memlist s' = rev (dropWhile (\<lambda>a. flush_completed (heap s a) \<or> a \<in> set mems)
            (rev (memlist s))))"
  proof
    let ?P = "\<lambda>a. flush_completed (heap s a) \<or> a \<in> set mems"
    assume h: "ok flushStatus \<and> \<not> commit_in_progress s \<and> fn \<noteq> 0 \<and>
      (\<forall>m\<in>set (tl mems). edit (heap s m) = []) \<and>
      (\<forall>a\<in>set (memlist s). flush_completed (heap s a) \<longrightarrow> file_number (heap s a) \<noteq> 0) \<and>
      (\<forall>v e. ok (fst (LogAndApply v e)))"
    then have okf: "ok flushStatus" and g: "\<not> commit_in_progress s" and fnz: "fn \<noteq> 0"
      and as: "\<forall>m\<in>set (tl mems). edit (heap s m) = []"
      and fl: "\<forall>a\<in>set (memlist s). flush_completed (heap s a) \<longrightarrow> file_number (heap s a) \<noteq> 0"
      and allok: "\<forall>v e. ok (fst (LogAndApply v e))"
      by blast+
    from Install_returns_normally [OF okf assms(1) fnz as fl] obtain st' s' where
      ret: "InstallMemtableFlushResults LogAndApply mems flushStatus fn s
        = Some (Inr (st', s'))" by blast
    from Install_ok_outcome [OF okf g assms(1) ret] obtain removed failed where
      o: "scan_outcome LogAndApply fn (marked mems fn s) removed failed st' s'" by blast
    have fnone: "failed = None"
    proof (cases failed)
      case None
      then show ?thesis .
    next
      case (Some a)
      with o obtain v e where "\<not> ok (fst (LogAndApply v e))"
        unfolding scan_outcome_def by auto
      with allok show ?thesis by blast
    qed
    with o have st': "st' = OK"
      and stop: "memlist s' \<noteq> [] \<longrightarrow>
        \<not> flush_completed (heap (marked mems fn s) (last (memlist s')))"
      by (simp_all add: scan_outcome_def)
    from o have ml: "memlist s = memlist s' @ removed"
      by (simp add: scan_outcome_def scan_effect_def)
    note rc = removed_completed [OF o]
    have "dropWhile ?P (rev (memlist s)) = dropWhile ?P (rev removed @ rev (memlist s'))"
      by (simp add: ml)
    also have "\<dots> = dropWhile ?P (rev (memlist s'))"
      using rc by (intro dropWhile_append2) simp
    also have "\<dots> = rev (memlist s')"
    proof (cases "memlist s' = []")
      case True
      then show ?thesis by simp
    next
      case False
      with stop have "\<not> ?P (last (memlist s'))" by (auto split: if_splits)
      moreover from False have "hd (rev (memlist s')) = last (memlist s')"
        by (simp add: hd_rev)
      ultimately have "\<not> ?P (hd (rev (memlist s')))" by simp
      then show ?thesis by (simp only: dropWhile_eq_self_iff) simp
    qed
    finally have "memlist s' = rev (dropWhile ?P (rev (memlist s)))" by simp
    with ret st' show "\<exists>s'. InstallMemtableFlushResults LogAndApply mems flushStatus fn s
            = Some (Inr (OK, s')) \<and>
          memlist s' = rev (dropWhile ?P (rev (memlist s)))"
      by blast
  qed
  from A B C D show ?thesis by (intro conjI)
qed

theorem commit_order_preserved_witness:
  "distinct (memlist three_selected) \<and> ok OK \<and> \<not> commit_in_progress three_selected \<and>
   last (memlist three_selected) = 1 \<and>
   \<not> flush_completed (heap three_selected 1) \<and> 1 \<notin> set [2 :: addr, 3] \<and>
   InstallMemtableFlushResults (accept_edits 0) [2, 3] OK 11 three_selected
     = Some (Inr (OK, three_flushed)) \<and>
   memlist three_flushed = [3, 2, 1] \<and> vset three_flushed = [] \<and>
   (\<exists>s'. InstallMemtableFlushResults (\<lambda>v e. (OK, v @ [e])) [1] OK 10 three_selected
        = Some (Inr (OK, s')) \<and>
      memlist s' = [3, 2] \<and> memlist three_selected = memlist s' @ [1] \<and>
      vset s' = [[1]] \<and> \<not> flush_completed (heap s' 2))"
proof -
  have d: "distinct (memlist three_selected)" by (simp add: three_selected_def)
  have i: "\<forall>a\<in>set (memlist three_selected).
      file_number (heap three_selected a) \<noteq> 0 \<longrightarrow> flush_completed (heap three_selected a)"
    by (simp add: three_selected_def)
  have b: "ok OK" "\<not> commit_in_progress three_selected"
    "\<forall>m\<in>set (tl [2 :: addr, 3]). edit (heap three_selected m) = []"
    "memlist three_selected \<noteq> []"
    "last (memlist three_selected) = 1"
    "\<not> flush_completed (heap three_selected (last (memlist three_selected)))"
    "last (memlist three_selected) \<notin> set [2 :: addr, 3]"
    by (simp_all add: three_selected_def)
  have mk: "marked [2, 3] 11 three_selected = three_flushed"
    by (simp add: marked_def three_selected_def three_flushed_def fun_eq_iff)
  note thm1 = commit_order_preserved [OF d i, of "accept_edits 0" "[2, 3]" OK 11]
  from thm1 b have stop: "InstallMemtableFlushResults (accept_edits 0) [2, 3] OK 11 three_selected
      = Some (Inr (OK, marked [2, 3] 11 three_selected))"
    by blast
  have c: "(10 :: 64 word) \<noteq> 0"
    "\<forall>m\<in>set (tl [1 :: addr]). edit (heap three_selected m) = []"
    "\<forall>a\<in>set (memlist three_selected).
      flush_completed (heap three_selected a) \<longrightarrow> file_number (heap three_selected a) \<noteq> 0"
    "\<forall>v e. ok (fst ((\<lambda>v e. (OK, v @ [e])) (v :: nat list list) (e :: nat list)))"
    by (simp_all add: three_selected_def)
  note thm2 = commit_order_preserved [OF d i, of "\<lambda>v e. (OK, v @ [e])" "[1]" OK 10]
  from thm2 b(1,2) c obtain s' where
    r: "InstallMemtableFlushResults (\<lambda>v e. (OK, v @ [e])) [1] OK 10 three_selected
        = Some (Inr (OK, s'))"
    and m: "memlist s' = rev (dropWhile
        (\<lambda>a. flush_completed (heap three_selected a) \<or> a \<in> set [1])
        (rev (memlist three_selected)))"
    by blast
  from m have m': "memlist s' = [3, 2]" by (simp add: three_selected_def)
  have "\<exists>t. InstallMemtableFlushResults (\<lambda>v e. (OK, v @ [e])) [1] OK 10 three_selected
      = Some (Inr (OK, t)) \<and> vset t = [[1]] \<and> \<not> flush_completed (heap t 2)"
    by (simp add: run_simps three_selected_def)
  with r have v: "vset s' = [[1]]" "\<not> flush_completed (heap s' 2)" by auto
  have l: "memlist three_flushed = [3, 2, 1]" "vset three_flushed = []"
    "memlist three_selected = [3, 2] @ [1]" "\<not> flush_completed (heap three_selected 1)"
    "1 \<notin> set [2 :: addr, 3]"
    by (simp_all add: three_flushed_def three_selected_def)
  from d b(1,2,5) l stop [unfolded mk] r m' v show ?thesis by auto
qed

text \<open>
  C2. The loop that commits the rest of a batch compares the file number of the next
  member with the file number of the call, not with the file number of the memtable
  whose edit was just applied. Memtables 2 and 3 were flushed together to file 11 while
  memtable 1 was still being flushed (the call on \<open>three_selected\<close> leaves
  \<open>three_flushed\<close>). When memtable 1 is installed with file 10, the scan applies the
  edit of 1, then the edit of 2, and then applies the empty edit of 3 on its own: the
  version set has received three edits, not two. For the batch of the call itself the
  loop does what its comment says: the followers that carry the file number of the call
  are committed under the one apply (\<open>commit_batch_ok_effect\<close>). The extra apply can
  fail by itself: when the version set fails at the third edit, memtable 3 is rolled
  back to the queue although the edit of its batch, applied with memtable 2, went
  through.
\<close>

theorem earlier_batch_applied_per_member:
  "map_option vset (returned_state
      (InstallMemtableFlushResults (accept_edits 3) [1] OK 10 three_flushed))
     = Some [[1], [2], []] \<and>
   map_option memlist (returned_state
      (InstallMemtableFlushResults (accept_edits 3) [1] OK 10 three_flushed)) = Some [] \<and>
   file_number (heap three_flushed 2) = file_number (heap three_flushed 3) \<and>
   returned_state (InstallMemtableFlushResults (accept_edits 3) [2, 3] OK 11 three_selected)
     = Some three_flushed \<and>
   returned_status (InstallMemtableFlushResults (accept_edits 2) [1] OK 10 three_flushed)
     = Some (IOError ''Unable to commit flushed memtable'') \<and>
   map_option memlist (returned_state
      (InstallMemtableFlushResults (accept_edits 2) [1] OK 10 three_flushed)) = Some [3] \<and>
   map_option vset (returned_state
      (InstallMemtableFlushResults (accept_edits 2) [1] OK 10 three_flushed))
     = Some [[1], [2]]"
  by (simp add: run_simps three_flushed_def three_selected_def fun_eq_iff)

text \<open>
  C3, as stated, fails on an empty batch: the reset of the signal and the erase of the
  file number stand inside the loop over the batch, so a failed flush with no memtable
  leaves the file number in \<open>pending_outputs\<close> and the signal as it was.
\<close>

theorem failed_flush_of_empty_batch:
  "InstallMemtableFlushResults (accept_edits 0) [] (IOError ''disk full'') 10 idle_list
     = Some (Inr (IOError ''disk full'', idle_list)) \<and>
   10 \<in> pending_outputs idle_list \<and> \<not> imm_flush_needed idle_list"
  by (simp add: InstallMemtableFlushResults_def idle_list_def empty_MemTableList_def)

text \<open>
  C3, amended. A call with a flush status that is not ok and a batch that is not empty,
  whose memtables are distinct, flush_in_progress and without file number (what the
  loop asserts of each), returns the flush status it was given. Every memtable of the
  batch is then queued again (not in progress, not completed, edit cleared),
  \<open>num_flush_not_started\<close> has grown by the size of the batch, the signal is set, the file
  number is not in \<open>pending_outputs\<close>, and the list, its size, the guard and the version
  set are as before: no commit was attempted.
\<close>

theorem failed_flush_resets_batch:
  assumes "\<not> ok flushStatus" and "mems \<noteq> []" and "distinct mems"
    and "\<forall>m\<in>set mems. flush_in_progress (heap s m) \<and> file_number (heap s m) = 0"
  shows "\<exists>s'. InstallMemtableFlushResults LogAndApply mems flushStatus fn s
        = Some (Inr (flushStatus, s')) \<and>
      (\<forall>m\<in>set mems. \<not> flush_in_progress (heap s' m) \<and> \<not> flush_completed (heap s' m) \<and>
         edit (heap s' m) = []) \<and>
      num_flush_not_started s' = num_flush_not_started s + int (length mems) \<and>
      imm_flush_needed s' \<and> fn \<notin> pending_outputs s' \<and>
      memlist s' = memlist s \<and> list_size s' = list_size s \<and>
      commit_in_progress s' = commit_in_progress s \<and> vset s' = vset s"
proof -
  from reset_failed_flush_returns [OF assms(3,4)] obtain s' where
    r: "reset_failed_flush mems fn s = Inr s'" by blast
  with assms(1) have "InstallMemtableFlushResults LogAndApply mems flushStatus fn s
      = Some (Inr (flushStatus, s'))"
    by (simp add: InstallMemtableFlushResults_def)
  moreover have "\<forall>m\<in>set mems. \<not> flush_in_progress (heap s' m) \<and>
      \<not> flush_completed (heap s' m) \<and> edit (heap s' m) = []"
    by (simp add: reset_failed_flush_heap [OF r])
  moreover have "imm_flush_needed s'" "fn \<notin> pending_outputs s'"
    using reset_failed_flush_signal [OF r] assms(2) by simp_all
  ultimately show ?thesis using reset_failed_flush_frame [OF r] by blast
qed

theorem failed_flush_resets_batch_witness:
  "\<not> ok (IOError ''disk full'') \<and> [2, 3] \<noteq> ([]::addr list) \<and> distinct [2::addr, 3] \<and>
   (\<exists>s'. InstallMemtableFlushResults (accept_edits 0) [2, 3] (IOError ''disk full'') 11
        three_selected = Some (Inr (IOError ''disk full'', s')) \<and>
      \<not> flush_in_progress (heap s' 2) \<and> \<not> flush_in_progress (heap s' 3) \<and>
      num_flush_not_started s' = 2 \<and> imm_flush_needed s' \<and> 11 \<notin> pending_outputs s' \<and>
      memlist s' = [3, 2, 1] \<and> list_size s' = 3)"
proof -
  have 1: "\<not> ok (IOError ''disk full'')" and 2: "[2, 3] \<noteq> ([]::addr list)"
    and 3: "distinct [2::addr, 3]" by simp_all
  have 4: "\<forall>m\<in>set [2, 3]. flush_in_progress (heap three_selected m) \<and>
      file_number (heap three_selected m) = 0"
    by (simp add: three_selected_def)
  from failed_flush_resets_batch [OF 1 2 3 4, of "accept_edits 0" 11]
  show ?thesis by (auto simp: three_selected_def)
qed


text \<open>
  C5. With the guard \<open>commit_in_progress\<close> already held and an ok flush status, the call
  (whose batch satisfies the assertion of the marking loop: only the first memtable may
  carry edits) returns ok at once. Every memtable of the batch is marked flush_completed
  with the file number of the call, and nothing else has changed: the members and the
  size of the list, \<open>num_flush_not_started\<close>, \<open>pending_outputs\<close>, the signal, the version
  set, the guard, and every reference count, in-progress flag and edit.
\<close>

theorem guard_held_returns_at_once:
  assumes "commit_in_progress s" and "ok flushStatus"
    and "\<forall>m\<in>set (tl mems). edit (heap s m) = []"
  shows "\<exists>s'. InstallMemtableFlushResults LogAndApply mems flushStatus fn s
        = Some (Inr (OK, s')) \<and>
      (\<forall>m\<in>set mems. flush_completed (heap s' m) \<and> file_number (heap s' m) = fn) \<and>
      memlist s' = memlist s \<and> list_size s' = list_size s \<and>
      num_flush_not_started s' = num_flush_not_started s \<and>
      pending_outputs s' = pending_outputs s \<and>
      imm_flush_needed s' = imm_flush_needed s \<and> vset s' = vset s \<and>
      commit_in_progress s' \<and>
      (\<forall>a. refs (heap s' a) = refs (heap s a) \<and>
           flush_in_progress (heap s' a) = flush_in_progress (heap s a) \<and>
           edit (heap s' a) = edit (heap s a)) \<and>
      (\<forall>a. a \<notin> set mems \<longrightarrow> heap s' a = heap s a)"
proof -
  from assms(3) have "\<forall>m\<in>set (if True then tl mems else mems). edit (heap s m) = []"
    by simp
  from mark_flush_completed_returns [OF this] obtain s' where
    m: "mark_flush_completed mems True fn s = Inr s'" by blast
  then have s': "s' = marked mems fn s" by (rule mark_flush_completed_marked)
  from m s' assms(1,2) have "InstallMemtableFlushResults LogAndApply mems flushStatus fn s
      = Some (Inr (OK, s'))"
    by (simp add: InstallMemtableFlushResults_def)
  then show ?thesis using assms(1) by (intro exI [of _ s']) (simp add: s')
qed

theorem guard_held_returns_at_once_witness:
  "commit_in_progress (three_selected\<lparr>commit_in_progress := True\<rparr>) \<and> ok OK \<and>
   (\<exists>s'. InstallMemtableFlushResults (accept_edits 3) [2, 3] OK 11
        (three_selected\<lparr>commit_in_progress := True\<rparr>) = Some (Inr (OK, s')) \<and>
      flush_completed (heap s' 2) \<and> file_number (heap s' 3) = 11 \<and>
      memlist s' = [3, 2, 1] \<and> list_size s' = 3 \<and> num_flush_not_started s' = 0 \<and>
      pending_outputs s' = {10, 11} \<and> vset s' = [] \<and> refs (heap s' 2) = 1)"
proof -
  let ?s = "three_selected\<lparr>commit_in_progress := True\<rparr>"
  have 1: "commit_in_progress ?s" and 2: "ok OK" by simp_all
  have 3: "\<forall>m\<in>set (tl [2, 3]). edit (heap ?s m) = []"
    by (simp add: three_selected_def)
  from guard_held_returns_at_once [OF 1 2 3, of "accept_edits 3" 11]
  show ?thesis by (auto simp: three_selected_def)
qed

text \<open>
  C6. In any state in which no member that is not yet in progress is already completed
  (the assertion of the loop), \<open>PickMemtablesToFlush\<close> returns. The vector \<open>ret\<close> has
  grown by \<open>picked\<close>: every member that was not flush_in_progress, each once, in the
  order of the list read from its back (oldest first); on a list without repetition
  \<open>picked\<close> is the reversed list filtered by "not in progress". Exactly these
  memtables have been marked flush_in_progress, \<open>num_flush_not_started\<close> has gone down by
  their number, and the signal has been cleared exactly when the counter passed through
  zero during the scan (it started positive and at most as large as the number picked).
  The list and everything else are unchanged.
\<close>

theorem pick_selects_unstarted_oldest_first:
  assumes "\<forall>a\<in>set (memlist s). \<not> flush_in_progress (heap s a) \<longrightarrow> \<not> flush_completed (heap s a)"
  shows "\<exists>s' picked. PickMemtablesToFlush s ret = Inr (s', ret @ picked) \<and>
      distinct picked \<and>
      set picked = {a \<in> set (memlist s). \<not> flush_in_progress (heap s a)} \<and>
      subseq picked (rev (memlist s)) \<and>
      (distinct (memlist s) \<longrightarrow>
         picked = filter (\<lambda>a. \<not> flush_in_progress (heap s a)) (rev (memlist s))) \<and>
      (\<forall>a\<in>set (memlist s). flush_in_progress (heap s' a)) \<and>
      num_flush_not_started s' = num_flush_not_started s - int (length picked) \<and>
      memlist s' = memlist s \<and>
      s' = s\<lparr>num_flush_not_started := num_flush_not_started s - int (length picked),
             imm_flush_needed :=
               (if 0 < num_flush_not_started s \<and> num_flush_not_started s \<le> int (length picked)
                then False else imm_flush_needed s),
             heap := (\<lambda>a. if a \<in> set picked then (heap s a)\<lparr>flush_in_progress := True\<rparr>
                          else heap s a)\<rparr>"
proof -
  from assms have "\<forall>a\<in>set (rev (memlist s)).
      \<not> flush_in_progress (heap s a) \<longrightarrow> \<not> flush_completed (heap s a)" by simp
  from pick_loop_returns [OF this, of ret] obtain s' ret' where
    r: "pick_loop (rev (memlist s)) s ret = Inr (s', ret')" by (metis surj_pair)
  from pick_loop_effect [OF r] obtain picked where
    p: "ret' = ret @ picked" "distinct picked"
      "set picked = {a \<in> set (rev (memlist s)). \<not> flush_in_progress (heap s a)}"
      "subseq picked (rev (memlist s))"
    and s': "s' = s\<lparr>num_flush_not_started := num_flush_not_started s - int (length picked),
             imm_flush_needed :=
               (if 0 < num_flush_not_started s \<and> num_flush_not_started s \<le> int (length picked)
                then False else imm_flush_needed s),
             heap := (\<lambda>a. if a \<in> set picked then (heap s a)\<lparr>flush_in_progress := True\<rparr>
                          else heap s a)\<rparr>"
    by blast
  have 1: "PickMemtablesToFlush s ret = Inr (s', ret @ picked)"
    using r p(1) by (simp add: PickMemtablesToFlush_def)
  have 2: "set picked = {a \<in> set (memlist s). \<not> flush_in_progress (heap s a)}"
    using p(3) by simp
  have 3: "distinct (memlist s) \<longrightarrow>
         picked = filter (\<lambda>a. \<not> flush_in_progress (heap s a)) (rev (memlist s))"
    using subseq_filter_unique [OF p(4) _ p(3)] by simp
  have 4: "\<forall>a\<in>set (memlist s). flush_in_progress (heap s' a)"
    using 2 by (subst s') auto
  have 5: "num_flush_not_started s' = num_flush_not_started s - int (length picked)"
    "memlist s' = memlist s"
    by (subst s', simp)+
  from 1 p(2) 2 p(4) 3 4 5 s' show ?thesis by blast
qed

theorem pick_selects_unstarted_oldest_first_witness:
  "PickMemtablesToFlush two_queued [] =
     Inr (two_queued\<lparr>num_flush_not_started := 0, imm_flush_needed := False,
            heap := (\<lambda>a. if a \<in> {1, 3} then (heap two_queued a)\<lparr>flush_in_progress := True\<rparr>
                         else heap two_queued a)\<rparr>, [1, 3])"
proof -
  have 1: "\<forall>a\<in>set (memlist two_queued).
      \<not> flush_in_progress (heap two_queued a) \<longrightarrow> \<not> flush_completed (heap two_queued a)"
    by (simp add: two_queued_def)
  have d: "distinct (memlist two_queued)" by (simp add: two_queued_def)
  from pick_selects_unstarted_oldest_first [OF 1, of "[]"] obtain s' picked where
    r: "PickMemtablesToFlush two_queued [] = Inr (s', [] @ picked)"
    and p: "distinct (memlist two_queued) \<longrightarrow>
       picked = filter (\<lambda>a. \<not> flush_in_progress (heap two_queued a)) (rev (memlist two_queued))"
    and s': "s' = two_queued\<lparr>num_flush_not_started :=
               num_flush_not_started two_queued - int (length picked),
             imm_flush_needed :=
               (if 0 < num_flush_not_started two_queued \<and>
                   num_flush_not_started two_queued \<le> int (length picked)
                then False else imm_flush_needed two_queued),
             heap := (\<lambda>a. if a \<in> set picked
                          then (heap two_queued a)\<lparr>flush_in_progress := True\<rparr>
                          else heap two_queued a)\<rparr>"
    by blast
  from p d have picked: "picked = [1, 3]" by (simp add: two_queued_def)
  have n: "num_flush_not_started two_queued = 2" by (simp add: two_queued_def)
  from r show ?thesis unfolding s' picked n by (simp add: insert_commute)
qed


text \<open>
  C8. The constructor of \<open>MergeIteratorBuilder\<close> calls \<open>AllocateAligned\<close> through the
  arena pointer without testing it, and \<open>WrapToMergingIterator\<close> passes \<open>nullptr\<close> for the
  arena: for every iterator the construction stops at the null pointer and no
  \<open>MergingIterator\<close> is built. With an arena the constructor takes the storage of the
  iterator from it. \<open>NewMergingIterator\<close> has the test the constructor lacks: without an
  arena it builds the iterator by plain allocation.
\<close>

theorem builder_without_arena_dereferences_null:
  "WrapToMergingIterator sizeof_MergingIterator iter = Inl NullPointerDereference \<and>
   new_MergeIteratorBuilder sizeof_MergingIterator cmp None prefix_mode
     = (Inl NullPointerDereference :: error + 'k MergeIteratorBuilder) \<and>
   new_MergeIteratorBuilder sizeof_MergingIterator cmp (Some blocks) prefix_mode =
     Inr \<lparr>arena = Some (blocks @ [sizeof_MergingIterator]),
          merge_iter = Some (new_MergingIterator cmp [] True prefix_mode)\<rparr> \<and>
   NewMergingIterator sizeof_MergingIterator cmp [iter] 1 None prefix_mode =
     Inr (new_MergingIterator cmp [iter] False prefix_mode, None)"
  by (simp add: WrapToMergingIterator_def new_MergeIteratorBuilder_def AllocateAligned_def
      NewMergingIterator_def)

text \<open>
  C9. Let the iterator stand on a valid child \<open>c\<close> whose key is \<open>K\<close>, with a comparator
  whose \<open>Equal\<close> is equality of keys, and let the keys of every child be strictly
  increasing. Then \<open>SwitchToForward\<close> returns: the min-heap is rebuilt from nothing and
  the max-heap, when allocated, is emptied; the current child is untouched; every other
  child has been sought to \<open>K\<close> and, when it landed on \<open>K\<close> itself, advanced once
  (\<open>resynced\<close>); the min-heap holds exactly the children that are valid afterwards; the
  direction is forward. Every child of the heap other than the current one stands on a
  key after \<open>K\<close>, so none of them yields \<open>K\<close> again.
\<close>

theorem switch_to_forward_resyncs_children:
  assumes "current it = Some c" and "c < length (children it)" and "Valid (children it ! c)"
    and "comparator it = Some (=)"
    and "\<forall>ch\<in>set (children it). sorted_wrt (<) (entries ch)"
  shows "\<exists>it'. SwitchToForward it = Inr it' \<and>
     direction it' = kForward \<and>
     maxHeap it' = map_option (\<lambda>_. []) (maxHeap it) \<and>
     current it' = current it \<and>
     length (children it') = length (children it) \<and>
     children it' ! c = children it ! c \<and>
     (\<forall>j<length (children it). j \<noteq> c \<longrightarrow>
        children it' ! j = resynced (key_of (children it ! c)) (children it ! j)) \<and>
     minHeap it' = filter (\<lambda>j. Valid (children it' ! j)) [0..<length (children it)] \<and>
     (\<forall>j\<in>set (minHeap it'). j \<noteq> c \<longrightarrow>
        key_of (children it ! c) < key_of (children it' ! j))"
proof -
  let ?K = "key_of (children it ! c)"
  let ?it0 = "ClearHeaps it"
  let ?n = "length (children it)"
  have c0: "current ?it0 = Some c" "c < length (children ?it0)" "Valid (children ?it0 ! c)"
    "comparator ?it0 = Some (=)"
    using assms(1-4) by (simp_all add: ClearHeaps_eq)
  have j0: "distinct [0..<length (children ?it0)]"
    "\<forall>j\<in>set [0..<length (children ?it0)]. j < length (children ?it0)"
    by simp_all
  from switch_loop_effect [OF c0 j0] obtain it1 where
    r: "switch_loop [0..<length (children ?it0)] ?it0 = Inr it1"
    and fr: "it1\<lparr>children := children ?it0, minHeap := minHeap ?it0\<rparr> = ?it0"
    and len: "length (children it1) = length (children ?it0)"
    and ch: "\<forall>j<length (children ?it0). children it1 ! j =
         (if j \<in> set [0..<length (children ?it0)] \<and> j \<noteq> c
          then resynced (key_of (children ?it0 ! c)) (children ?it0 ! j)
          else children ?it0 ! j)"
    and mh: "minHeap it1 = minHeap ?it0 @
        filter (\<lambda>j. Valid (children it1 ! j)) [0..<length (children ?it0)]"
    by blast
  let ?it' = "it1\<lparr>direction := kForward\<rparr>"
  have res: "SwitchToForward it = Inr ?it'"
    using r by (simp add: SwitchToForward_def Let_def)
  have "maxHeap (it1\<lparr>children := children ?it0, minHeap := minHeap ?it0\<rparr>) = maxHeap ?it0"
    "current (it1\<lparr>children := children ?it0, minHeap := minHeap ?it0\<rparr>) = current ?it0"
    by (simp_all only: fr)
  then have mx: "maxHeap ?it' = map_option (\<lambda>_. []) (maxHeap it)"
    and cu: "current ?it' = current it"
    by (simp_all add: ClearHeaps_eq)
  have ln: "length (children ?it') = ?n" using len by (simp add: ClearHeaps_eq)
  have chc: "children ?it' ! c = children it ! c"
    using ch assms(2) by (simp add: ClearHeaps_eq)
  have cho: "\<forall>j<?n. j \<noteq> c \<longrightarrow> children ?it' ! j = resynced ?K (children it ! j)"
    using ch by (simp add: ClearHeaps_eq)
  have mh': "minHeap ?it' = filter (\<lambda>j. Valid (children ?it' ! j)) [0..<?n]"
    using mh by (simp add: ClearHeaps_eq)
  have past: "\<forall>j\<in>set (minHeap ?it'). j \<noteq> c \<longrightarrow> ?K < key_of (children ?it' ! j)"
  proof (intro ballI impI)
    fix j assume j: "j \<in> set (minHeap ?it')" and jc: "j \<noteq> c"
    from j have jn: "j < ?n" and v: "Valid (children ?it' ! j)"
      unfolding mh' by simp_all
    from cho jn jc have e: "children ?it' ! j = resynced ?K (children it ! j)" by blast
    from jn assms(5) have "sorted_wrt (<) (entries (children it ! j))" by simp
    from resynced_past [OF this v [unfolded e]] show "?K < key_of (children ?it' ! j)"
      unfolding e .
  qed
  have "direction ?it' = kForward" by simp
  with res mx cu ln chc cho mh' past show ?thesis by blast
qed

theorem switch_to_forward_resyncs_children_witness:
  "current three_children = Some 0 \<and> Valid (children three_children ! 0) \<and>
   key_of (children three_children ! 0) = 3 \<and>
   (\<exists>it'. SwitchToForward three_children = Inr it' \<and> direction it' = kForward \<and>
      maxHeap it' = Some [] \<and> minHeap it' = [0, 1] \<and>
      children it' ! 1 = \<lparr>entries = [2, 3, 4], cursor = 2\<rparr> \<and>
      children it' ! 2 = \<lparr>entries = [1, 2, 3], cursor = 3\<rparr> \<and>
      3 < key_of (children it' ! 1))"
proof -
  have 1: "current three_children = Some 0" and 2: "0 < length (children three_children)"
    and 3: "Valid (children three_children ! 0)"
    and 4: "comparator three_children = Some (=)"
    and 5: "\<forall>ch\<in>set (children three_children). sorted_wrt (<) (entries ch)"
    and k: "key_of (children three_children ! 0) = 3"
    by (simp_all add: three_children_def Valid_def key_of_def)
  from switch_to_forward_resyncs_children [OF 1 2 3 4 5] obtain it' where
    r: "SwitchToForward three_children = Inr it'" and d: "direction it' = kForward"
    and mx: "maxHeap it' = map_option (\<lambda>_. []) (maxHeap three_children)"
    and c0: "children it' ! 0 = children three_children ! 0"
    and ch: "\<forall>j<length (children three_children). j \<noteq> 0 \<longrightarrow>
        children it' ! j = resynced (key_of (children three_children ! 0))
          (children three_children ! j)"
    and mh: "minHeap it' = filter (\<lambda>j. Valid (children it' ! j))
        [0..<length (children three_children)]"
    and p: "\<forall>j\<in>set (minHeap it'). j \<noteq> 0 \<longrightarrow>
        key_of (children three_children ! 0) < key_of (children it' ! j)"
    by blast
  have l: "length (children three_children) = 3" by (simp add: three_children_def)
  from ch have c1: "children it' ! 1 = \<lparr>entries = [2, 3, 4], cursor = 2\<rparr>"
    and c2: "children it' ! 2 = \<lparr>entries = [1, 2, 3], cursor = 3\<rparr>"
    unfolding l k
    by (simp_all add: three_children_def resynced_def Seek_def Next_def Valid_def key_of_def)
  have u: "[0..<3] = [0, 1, 2::nat]" by (simp add: upt_rec)
  have m: "minHeap it' = [0, 1]"
    unfolding mh l u using c0 c1 c2
    by (simp add: three_children_def Valid_def)
  from p m k have "3 < key_of (children it' ! 1)" by simp
  with 1 3 k r d mx m c1 c2 show ?thesis by (auto simp: three_children_def)
qed

text \<open>
  C10. A call that returns an error after an ok flush (guard free, list without
  repetition) has not undone what its scan committed before the failing apply. The
  members removed before the failure are still
  gone from the list (none of them is a member any more), the size has gone down by
  their number, each has lost one reference and nothing else, and none of their file
  numbers is in \<open>pending_outputs\<close>. One memtable only was rolled back: the remaining
  members other than the oldest are as the marking loop left them, and
  \<open>num_flush_not_started\<close> has grown by one. The witness is a call that returns the IO
  error after it has committed memtable 1.
\<close>

theorem commit_failure_keeps_earlier_commits:
  assumes "ok flushStatus" and "\<not> commit_in_progress s" and "distinct (memlist s)"
    and "InstallMemtableFlushResults LogAndApply mems flushStatus fn s = Some (Inr (st', s'))"
    and "\<not> ok st'"
  shows "\<exists>removed. memlist s = memlist s' @ removed \<and>
      list_size s' = list_size s - int (length removed) \<and>
      (\<forall>a\<in>set removed. a \<notin> set (memlist s') \<and>
         heap s' a = Unref (heap (marked mems fn s) a) \<and>
         refs (heap s' a) = refs (heap s a) - 1 \<and>
         file_number (heap s' a) \<notin> pending_outputs s') \<and>
      (\<forall>a\<in>set (butlast (memlist s')). heap s' a = heap (marked mems fn s) a) \<and>
      heap s' (last (memlist s')) = rolled_back (heap (marked mems fn s) (last (memlist s'))) \<and>
      num_flush_not_started s' = num_flush_not_started s + 1"
proof -
  let ?s0 = "marked mems fn s"
  let ?m = "last (memlist s')"
  from Install_not_ok_outcome [OF assms] obtain removed where
    o: "scan_outcome LogAndApply fn ?s0 removed (Some ?m) st' s'" by blast
  then have e: "scan_effect ?s0 removed (Some ?m) s'" by (simp add: scan_outcome_def)
  then have ml: "memlist s = memlist s' @ removed" and ne: "memlist s' \<noteq> []"
    and hp: "\<And>a. heap s' a =
        (if a \<in> set removed then Unref (heap ?s0 a)
         else if Some ?m = Some a then rolled_back (heap ?s0 a)
         else heap ?s0 a)"
    and ns: "num_flush_not_started s' = num_flush_not_started s + 1"
    and ls: "list_size s' = list_size s - int (length removed)"
    and pe: "pending_outputs s' = pending_outputs ?s0 -
          (\<lambda>a. file_number (heap ?s0 a)) ` (set removed \<union> set_option (Some ?m))"
    by (simp_all add: scan_effect_def)
  from assms(3) ml have dis: "set (memlist s') \<inter> set removed = {}"
    and d': "distinct (memlist s')" by auto
  have rem: "\<forall>a\<in>set removed. a \<notin> set (memlist s') \<and>
         heap s' a = Unref (heap ?s0 a) \<and>
         refs (heap s' a) = refs (heap s a) - 1 \<and>
         file_number (heap s' a) \<notin> pending_outputs s'"
  proof
    fix a assume a: "a \<in> set removed"
    then have "heap s' a = Unref (heap ?s0 a)" by (simp add: hp)
    moreover from a have "file_number (heap ?s0 a) \<notin> pending_outputs s'"
      unfolding pe by blast
    ultimately show "a \<notin> set (memlist s') \<and>
         heap s' a = Unref (heap ?s0 a) \<and>
         refs (heap s' a) = refs (heap s a) - 1 \<and>
         file_number (heap s' a) \<notin> pending_outputs s'"
      using a dis by auto
  qed
  from ne have "?m \<in> set (memlist s')" by simp
  with dis have mr: "?m \<notin> set removed" by auto
  have h: "heap s' ?m = rolled_back (heap ?s0 ?m)" using mr by (simp add: hp)
  have others: "\<forall>a\<in>set (butlast (memlist s')). heap s' a = heap ?s0 a"
  proof
    fix a assume a: "a \<in> set (butlast (memlist s'))"
    then have "a \<in> set (memlist s')" by (rule in_set_butlastD)
    with dis have ar: "a \<notin> set removed" by auto
    from d' ne have "distinct (butlast (memlist s') @ [?m])" by simp
    with a have "a \<noteq> ?m" by auto
    with ar show "heap s' a = heap ?s0 a" by (simp add: hp)
  qed
  from ml ls rem others h ns show ?thesis by blast
qed

theorem commit_failure_keeps_earlier_commits_witness:
  "ok OK \<and> \<not> commit_in_progress three_flushed \<and> distinct (memlist three_flushed) \<and>
   (\<exists>s'. InstallMemtableFlushResults (accept_edits 1) [1] OK 10 three_flushed
        = Some (Inr (IOError ''Unable to commit flushed memtable'', s')) \<and>
      memlist three_flushed = memlist s' @ [1] \<and> memlist s' = [3, 2] \<and> list_size s' = 2 \<and>
      refs (heap s' 1) = 0 \<and> flush_completed (heap s' 1) \<and> file_number (heap s' 1) = 10 \<and>
      10 \<notin> pending_outputs s' \<and>
      heap s' 3 = heap three_flushed 3 \<and> \<not> flush_completed (heap s' 2) \<and>
      num_flush_not_started s' = 1)"
proof -
  have 1: "ok OK" and 2: "\<not> commit_in_progress three_flushed"
    and 3: "distinct (memlist three_flushed)"
    by (simp_all add: three_flushed_def)
  have ev: "\<exists>s'. InstallMemtableFlushResults (accept_edits 1) [1] OK 10 three_flushed
      = Some (Inr (IOError ''Unable to commit flushed memtable'', s')) \<and> memlist s' = [3, 2]"
    by (simp add: run_simps three_flushed_def)
  then obtain s' where r: "InstallMemtableFlushResults (accept_edits 1) [1] OK 10 three_flushed
      = Some (Inr (IOError ''Unable to commit flushed memtable'', s'))"
    and m: "memlist s' = [3, 2]" by blast
  have nok: "\<not> ok (IOError ''Unable to commit flushed memtable'')" by simp
  from commit_failure_keeps_earlier_commits [OF 1 2 3 r nok] obtain removed where
    c: "memlist three_flushed = memlist s' @ removed"
      "list_size s' = list_size three_flushed - int (length removed)"
      "\<forall>a\<in>set removed. a \<notin> set (memlist s') \<and>
         heap s' a = Unref (heap (marked [1] 10 three_flushed) a) \<and>
         refs (heap s' a) = refs (heap three_flushed a) - 1 \<and>
         file_number (heap s' a) \<notin> pending_outputs s'"
      "\<forall>a\<in>set (butlast (memlist s')). heap s' a = heap (marked [1] 10 three_flushed) a"
      "heap s' (last (memlist s')) =
         rolled_back (heap (marked [1] 10 three_flushed) (last (memlist s')))"
      "num_flush_not_started s' = num_flush_not_started three_flushed + 1"
    by blast
  from c(1) m have rm: "removed = [1]" by (simp add: three_flushed_def)
  from c m rm have f: "list_size s' = 2" "refs (heap s' 1) = 0" "flush_completed (heap s' 1)"
    "file_number (heap s' 1) = 10"
    "heap s' 3 = heap three_flushed 3" "\<not> flush_completed (heap s' 2)"
    "num_flush_not_started s' = 1"
    by (simp_all add: three_flushed_def)
  have "(1::addr) \<in> set removed" unfolding rm by simp
  with c(3) have "file_number (heap s' 1) \<notin> pending_outputs s'" by blast
  then have "10 \<notin> pending_outputs s'" unfolding f(4) .
  with 1 2 3 r m c(1) rm f show ?thesis by auto
qed

end
